theory Spec2Isabelle
  imports Main "HOL-Library.Word"
begin

unbundle bit_operations_syntax

section \<open>Physical memory\<close>

text \<open>
  The kernel reuses one physical address as a free-list node, a page table and a
  data buffer.  Physical memory is therefore modelled as one byte-addressed store;
  a 64-bit access assembles eight bytes in little-endian order (RISC-V).
  \<open>memset\<close> and \<open>memmove\<close> are the routines of \<open>lib/str.h\<close>; at these call sites source
  and destination never overlap partially, so \<open>memmove\<close> reads the old store.
  A 64-bit address that is 0 is the C null pointer.
\<close>

type_synonym u64 = "64 word"
type_synonym u32 = "32 word"
type_synonym u8 = "8 word"
type_synonym memory = "u64 \<Rightarrow> u8"

definition read64 :: "memory \<Rightarrow> u64 \<Rightarrow> u64" where
  "read64 m a =
     ucast (m a) OR push_bit 8 (ucast (m (a + 1))) OR push_bit 16 (ucast (m (a + 2)))
       OR push_bit 24 (ucast (m (a + 3))) OR push_bit 32 (ucast (m (a + 4)))
       OR push_bit 40 (ucast (m (a + 5))) OR push_bit 48 (ucast (m (a + 6)))
       OR push_bit 56 (ucast (m (a + 7)))"

definition write64 :: "memory \<Rightarrow> u64 \<Rightarrow> u64 \<Rightarrow> memory" where
  "write64 m a v = (\<lambda>x. if x - a < 8 then ucast (drop_bit (8 * unat (x - a)) v) else m x)"

definition memset :: "memory \<Rightarrow> u64 \<Rightarrow> u8 \<Rightarrow> u64 \<Rightarrow> memory" where
  "memset m dst c n = (\<lambda>x. if x - dst < n then c else m x)"

definition memmove :: "memory \<Rightarrow> u64 \<Rightarrow> u64 \<Rightarrow> u64 \<Rightarrow> memory" where
  "memmove m dst src n = (\<lambda>x. if x - dst < n then m (src + (x - dst)) else m x)"

text \<open>\<open>panic\<close> prints its message and spins forever: the call never returns.  It is the
  value \<open>Panic\<close>; \<open>assert(c, msg)\<close> is \<open>panic(msg)\<close> when \<open>c\<close> is false.\<close>

datatype 'a result = is_Panic: Panic string | is_Ok: Ok (the_Ok: 'a)

section \<open>Constants and macros (riscv.h, memlayout.h, vmem.h)\<close>

definition PGSIZE :: u64 where "PGSIZE = 4096"

definition PG_ROUND_UP :: "u64 \<Rightarrow> u64" where
  "PG_ROUND_UP sz = (sz + PGSIZE - 1) AND NOT (PGSIZE - 1)"

definition PG_ROUND_DOWN :: "u64 \<Rightarrow> u64" where
  "PG_ROUND_DOWN a = a AND NOT (PGSIZE - 1)"

definition VA_SHIFT :: "nat \<Rightarrow> nat" where
  "VA_SHIFT level = 12 + 9 * level"

definition VA_TO_VPN :: "u64 \<Rightarrow> nat \<Rightarrow> u64" where
  "VA_TO_VPN va level = drop_bit (VA_SHIFT level) va AND 0x1FF"

definition PA_TO_PTE :: "u64 \<Rightarrow> u64" where
  "PA_TO_PTE pa = push_bit 10 (drop_bit 12 pa)"

definition PTE_TO_PA :: "u64 \<Rightarrow> u64" where
  "PTE_TO_PA pte = push_bit 12 (drop_bit 10 pte)"

definition PTE_V :: u64 where "PTE_V = 1"
definition PTE_R :: u64 where "PTE_R = 2"
definition PTE_W :: u64 where "PTE_W = 4"
definition PTE_X :: u64 where "PTE_X = 8"
definition PTE_U :: u64 where "PTE_U = 16"
definition PTE_G :: u64 where "PTE_G = 32"

definition PTE_FLAGS :: "u64 \<Rightarrow> u64" where
  "PTE_FLAGS pte = pte AND 0x3FF"

text \<open>\<open>PTE_CHECK\<close> (riscv.h): no R/W/X bit, the entry points to a page table.\<close>

definition PTE_CHECK :: "u64 \<Rightarrow> bool" where
  "PTE_CHECK pte = (pte AND (PTE_R OR PTE_W OR PTE_X) = 0)"

text \<open>\<open>PTE_IS_TABLE\<close> (week3 memlayout.h): valid and no R/W/X bit.\<close>

definition PTE_IS_TABLE :: "u64 \<Rightarrow> bool" where
  "PTE_IS_TABLE pte = (pte AND (PTE_V OR PTE_R OR PTE_W OR PTE_X) = PTE_V)"

text \<open>\<open>&pgtbl[i]\<close> for a table of 64-bit entries.\<close>

definition pte_ptr :: "u64 \<Rightarrow> u64 \<Rightarrow> u64" where
  "pte_ptr pgtbl i = pgtbl + 8 * i"

text \<open>The \<open>int perm\<close> argument is converted to \<open>uint64\<close> by sign extension when it is
  or-ed into an entry.\<close>

definition perm64 :: "u32 \<Rightarrow> u64" where
  "perm64 perm = scast perm"

text \<open>\<open>VA_MAX\<close> is \<open>1ul << 38\<close> in the later labs (riscv.h) and \<open>0x7FFFFFFFFF\<close> in week3
  (memlayout.h); \<open>TRAMPOLINE\<close> and \<open>TRAPFRAME\<close> are the two pages below \<open>VA_MAX\<close>.\<close>

definition VA_MAX :: u64 where "VA_MAX = 0x4000000000"
definition week3_VA_MAX :: u64 where "week3_VA_MAX = 0x7FFFFFFFFF"
definition TRAMPOLINE :: u64 where "TRAMPOLINE = VA_MAX - PGSIZE"
definition TRAPFRAME :: u64 where "TRAPFRAME = TRAMPOLINE - PGSIZE"

section \<open>Frame allocator of the system-call lab (kernel/mem/pmem.c)\<close>

text \<open>One \<open>alloc_region_t\<close> per region; the spin lock is left out (one thread of
  control).  \<open>list_head_next\<close> is \<open>list_head.next\<close>; the links of the free list live in
  the first eight bytes of each free frame.\<close>

record alloc_region =
  rg_begin :: u64
  rg_end :: u64
  allocable :: u32
  list_head_next :: u64

record sc_state =
  sc_mem :: memory
  kern_region :: alloc_region
  user_region :: alloc_region

definition target_region :: "sc_state \<Rightarrow> bool \<Rightarrow> alloc_region" where
  "target_region s in_kernel = (if in_kernel then kern_region s else user_region s)"

definition set_target_region :: "bool \<Rightarrow> alloc_region \<Rightarrow> sc_state \<Rightarrow> sc_state" where
  "set_target_region in_kernel r s =
     (if in_kernel then s\<lparr>kern_region := r\<rparr> else s\<lparr>user_region := r\<rparr>)"

definition sc_pmem_alloc :: "sc_state \<Rightarrow> bool \<Rightarrow> (sc_state \<times> u64) result" where
  "sc_pmem_alloc s in_kernel =
     (let r = target_region s in_kernel in
      if allocable r = 0 \<or> list_head_next r = 0
      then Panic ''pmem_alloc: no available physical pages ''
      else
        let alloc_page = list_head_next r;
            r' = r\<lparr>list_head_next := read64 (sc_mem s) alloc_page,
                   allocable := allocable r - 1\<rparr>;
            s' = set_target_region in_kernel r' s
        in Ok (s'\<lparr>sc_mem := memset (sc_mem s') alloc_page 0 PGSIZE\<rparr>, alloc_page))"

definition sc_pmem_free :: "sc_state \<Rightarrow> u64 \<Rightarrow> bool \<Rightarrow> sc_state result" where
  "sc_pmem_free s page in_kernel =
     (if page mod PGSIZE \<noteq> 0 then Panic ''pmem_free: physical address not page-aligned''
      else
        let r = target_region s in_kernel in
        if page < rg_begin r \<or> page \<ge> rg_end r
        then Panic ''pmem_free: physical address out of region range ''
        else
          let m1 = memset (sc_mem s) page 0 PGSIZE;
              m2 = write64 m1 page (list_head_next r);
              r' = r\<lparr>list_head_next := page, allocable := allocable r + 1\<rparr>
          in Ok ((set_target_region in_kernel r' s)\<lparr>sc_mem := m2\<rparr>))"

section \<open>Frame allocator of week3 (kernel/mem/pmem.c)\<close>

text \<open>The week3 kernel prints where the later labs panic.  Console output is kept as
  a list of events, one constructor per \<open>printf\<close> of the modelled functions.
  \<open>kernel_end\<close> is the linker symbol \<open>end\<close>.\<close>

datatype event =
    OutOfKernelMemory
  | FreeInvalidAddress u64
  | FreeUserAsKernel u64
  | FreeKernelAsUser u64
  | PteNotValid nat
  | PteAllocFailed nat
  | PteCreated nat u64 u64
  | AlreadyMapped u64

record kmem_t =
  freelist_kernel :: u64
  freelist_user :: u64
  kernel_pages_used :: u64
  user_pages_used :: u64

record week3_state =
  w_mem :: memory
  kmem :: kmem_t
  console :: "event list"
  kernel_end :: u64

definition printf :: "event \<Rightarrow> week3_state \<Rightarrow> week3_state" where
  "printf e s = s\<lparr>console := console s @ [e]\<rparr>"

definition KERNEL_PAGES :: u64 where "KERNEL_PAGES = 1024"
definition PHYS_TOP :: u64 where "PHYS_TOP = 0x80000000 + 128 * 1024 * 1024"

definition week3_pmem_alloc :: "week3_state \<Rightarrow> bool \<Rightarrow> week3_state \<times> u64" where
  "week3_pmem_alloc s in_kernel =
     (let k = kmem s;
          r = (if in_kernel then freelist_kernel k else freelist_user k);
          k' = (if r = 0 then k
                else if in_kernel
                then k\<lparr>freelist_kernel := read64 (w_mem s) r,
                       kernel_pages_used := kernel_pages_used k + 1\<rparr>
                else k\<lparr>freelist_user := read64 (w_mem s) r,
                       user_pages_used := user_pages_used k + 1\<rparr>);
          s1 = s\<lparr>kmem := k'\<rparr>;
          s2 = (if in_kernel \<and> r = 0 then printf OutOfKernelMemory s1 else s1)
      in (s2, r))"

text \<open>\<open>pmem_free\<close> of week3 only prints when its checks fail and goes on to
  \<open>memset(pa, 0xaa, PGSIZE)\<close> and \<open>r->next = ...\<close>.  With \<open>pa = NULL\<close> these write through
  the null pointer: a fault of the machine, here a \<open>Panic\<close> value of its own.\<close>

definition week3_pmem_free :: "week3_state \<Rightarrow> u64 \<Rightarrow> bool \<Rightarrow> week3_state result" where
  "week3_pmem_free s pa in_kernel =
     (let s1 = (if pa mod PGSIZE \<noteq> 0 \<or> pa < PG_ROUND_UP (kernel_end s) \<or> pa \<ge> PHYS_TOP
                then printf (FreeInvalidAddress pa) s else s);
          kernel_mem_end = PG_ROUND_UP (kernel_end s) + KERNEL_PAGES * PGSIZE;
          s2 = (if in_kernel \<and> pa \<ge> kernel_mem_end then printf (FreeUserAsKernel pa) s1 else s1);
          s3 = (if \<not> in_kernel \<and> pa < kernel_mem_end then printf (FreeKernelAsUser pa) s2 else s2)
      in if pa = 0 then Panic ''fault: null pointer dereference''
         else
           let m1 = memset (w_mem s3) pa 0xaa PGSIZE;
               k = kmem s3
           in if in_kernel
              then Ok (s3\<lparr>w_mem := write64 m1 pa (freelist_kernel k),
                         kmem := k\<lparr>freelist_kernel := pa,
                                   kernel_pages_used := kernel_pages_used k - 1\<rparr>\<rparr>)
              else Ok (s3\<lparr>w_mem := write64 m1 pa (freelist_user k),
                         kmem := k\<lparr>freelist_user := pa,
                                   user_pages_used := user_pages_used k - 1\<rparr>\<rparr>))"

section \<open>Page tables of week3 (kernel/mem/vmem.c)\<close>

text \<open>The body of the \<open>for\<close> loop of \<open>vm_getpte\<close> at one level: \<open>pte\<close> points to the entry of
  this level; the result is the pointer to the entry of the next level, or \<open>None\<close> where the
  function returns \<open>NULL\<close>.\<close>

definition week3_getpte_level ::
  "week3_state \<Rightarrow> u64 \<Rightarrow> u64 \<Rightarrow> bool \<Rightarrow> nat \<Rightarrow> week3_state \<times> u64 option" where
  "week3_getpte_level s va pte alloc level =
     (if read64 (w_mem s) pte AND PTE_V = 0
      then
        if \<not> alloc then (printf (PteNotValid level) s, None)
        else
          let (s1, pa) = week3_pmem_alloc s True in
          if pa = 0 then (printf (PteAllocFailed level) s1, None)
          else
            let m1 = memset (w_mem s1) pa 0 PGSIZE;
                m2 = write64 m1 pte (PA_TO_PTE pa OR PTE_V OR PTE_G);
                s2 = printf (PteCreated level pa (read64 m2 pte)) (s1\<lparr>w_mem := m2\<rparr>)
            in (s2, Some (pte_ptr (PTE_TO_PA (read64 m2 pte)) (VA_TO_VPN va (level - 1))))
      else (s, Some (pte_ptr (PTE_TO_PA (read64 (w_mem s) pte)) (VA_TO_VPN va (level - 1)))))"

fun week3_getpte_loop :: "nat \<Rightarrow> week3_state \<Rightarrow> u64 \<Rightarrow> u64 \<Rightarrow> bool \<Rightarrow> week3_state \<times> u64" where
  "week3_getpte_loop 0 s va pte alloc = (s, pte)"
| "week3_getpte_loop (Suc n) s va pte alloc =
     (case week3_getpte_level s va pte alloc (Suc n) of
        (s', None) \<Rightarrow> (s', 0)
      | (s', Some pte') \<Rightarrow> week3_getpte_loop n s' va pte' alloc)"

definition week3_vm_getpte :: "week3_state \<Rightarrow> u64 \<Rightarrow> u64 \<Rightarrow> bool \<Rightarrow> week3_state \<times> u64" where
  "week3_vm_getpte s pgtbl va alloc =
     week3_getpte_loop 2 s va (pte_ptr pgtbl (VA_TO_VPN va 2)) alloc"

text \<open>\<open>for (i = 0; i < len; i += PGSIZE)\<close> with \<open>len\<close> a checked multiple of the page size
  runs \<open>len / PGSIZE\<close> times; the first argument counts the pages still to do.\<close>

fun week3_map_loop ::
  "nat \<Rightarrow> week3_state \<Rightarrow> u64 \<Rightarrow> u64 \<Rightarrow> u64 \<Rightarrow> u64 \<Rightarrow> u32 \<Rightarrow> week3_state result" where
  "week3_map_loop 0 s pgtbl va pa i perm = Ok s"
| "week3_map_loop (Suc n) s pgtbl va pa i perm =
     (let (s1, pte) = week3_vm_getpte s pgtbl (va + i) True in
      if pte = 0 then Panic ''vm_mappages: vm_getpte failed''
      else
        let s2 = (if read64 (w_mem s1) pte AND PTE_V \<noteq> 0
                  then printf (AlreadyMapped (va + i)) s1 else s1);
            s3 = s2\<lparr>w_mem := write64 (w_mem s2) pte (PA_TO_PTE (pa + i) OR perm64 perm OR PTE_V)\<rparr>
        in week3_map_loop n s3 pgtbl va pa (i + PGSIZE) perm)"

definition week3_vm_mappages ::
  "week3_state \<Rightarrow> u64 \<Rightarrow> u64 \<Rightarrow> u64 \<Rightarrow> u64 \<Rightarrow> u32 \<Rightarrow> week3_state result" where
  "week3_vm_mappages s pgtbl va pa len perm =
     (if va mod PGSIZE \<noteq> 0 \<or> pa mod PGSIZE \<noteq> 0 \<or> len mod PGSIZE \<noteq> 0
      then Panic ''vm_mappages: addresses or length not page-aligned''
      else if perm AND NOT 62 \<noteq> 0
      then Panic ''vm_mappages: invalid permissions''
      else week3_map_loop (unat (len div PGSIZE)) s pgtbl va pa 0 perm)"

text \<open>\<open>vm_unmappages\<close> of week3 dereferences the entry pointer without a check (the panic
  is commented out); a null entry pointer is a fault of the machine, here a \<open>Panic\<close>
  value of its own.  With \<open>freeit\<close> the frame number of the entry goes to \<open>pmem_free\<close>
  unchecked, which faults in the same way when it is \<open>NULL\<close>.\<close>

fun week3_unmap_loop ::
  "nat \<Rightarrow> week3_state \<Rightarrow> u64 \<Rightarrow> u64 \<Rightarrow> u64 \<Rightarrow> bool \<Rightarrow> week3_state result" where
  "week3_unmap_loop 0 s pgtbl va i freeit = Ok s"
| "week3_unmap_loop (Suc n) s pgtbl va i freeit =
     (let (s1, pte) = week3_vm_getpte s pgtbl (va + i) False in
      if pte = 0 then Panic ''fault: null pointer dereference''
      else
        case (if freeit
              then
                let kernel_mem_end = PG_ROUND_DOWN (kernel_end s1) + KERNEL_PAGES * PGSIZE;
                    pa = PTE_TO_PA (read64 (w_mem s1) pte)
                in week3_pmem_free s1 pa (pa < kernel_mem_end)
              else Ok s1) of
          Panic msg \<Rightarrow> Panic msg
        | Ok s2 \<Rightarrow>
            week3_unmap_loop n (s2\<lparr>w_mem := write64 (w_mem s2) pte 0\<rparr>) pgtbl va (i + PGSIZE)
              freeit)"

definition week3_vm_unmappages ::
  "week3_state \<Rightarrow> u64 \<Rightarrow> u64 \<Rightarrow> u64 \<Rightarrow> bool \<Rightarrow> week3_state result" where
  "week3_vm_unmappages s pgtbl va len freeit =
     (if va mod PGSIZE \<noteq> 0 \<or> len mod PGSIZE \<noteq> 0
      then Panic ''vm_unmappages: addresses or length not page-aligned''
      else week3_unmap_loop (unat (len div PGSIZE)) s pgtbl va 0 freeit)"

definition week3_vm_walkaddr :: "week3_state \<Rightarrow> u64 \<Rightarrow> u64 \<Rightarrow> week3_state \<times> u64" where
  "week3_vm_walkaddr s pgtbl va =
     (if va > week3_VA_MAX then (s, 0)
      else
        let (s1, pte) = week3_vm_getpte s pgtbl va False in
        if pte = 0 \<or> read64 (w_mem s1) pte AND PTE_V = 0 then (s1, 0)
        else if PTE_IS_TABLE (read64 (w_mem s1) pte) then (s1, 0)
        else (s1, PTE_TO_PA (read64 (w_mem s1) pte) + (va AND (PGSIZE - 1))))"

definition week3_vm_create :: "week3_state \<Rightarrow> week3_state \<times> u64" where
  "week3_vm_create s =
     (let (s1, pgtbl) = week3_pmem_alloc s True
      in if pgtbl \<noteq> 0 then (s1\<lparr>w_mem := memset (w_mem s1) pgtbl 0 PGSIZE\<rparr>, pgtbl)
         else (s1, pgtbl))"

section \<open>Page tables of the system-call lab (kernel/mem/kvm.c)\<close>

text \<open>The loop of \<open>vm_getpte\<close> over the levels 2 and 1: the result is the table of the
  next level, or \<open>None\<close> where the function returns \<open>NULL\<close>.\<close>

fun sc_getpte_loop ::
  "nat \<Rightarrow> sc_state \<Rightarrow> u64 \<Rightarrow> u64 \<Rightarrow> bool \<Rightarrow> (sc_state \<times> u64 option) result" where
  "sc_getpte_loop 0 s pgtbl va alloc = Ok (s, Some pgtbl)"
| "sc_getpte_loop (Suc n) s pgtbl va alloc =
     (let pte_entry = pte_ptr pgtbl (VA_TO_VPN va (Suc n)) in
      if read64 (sc_mem s) pte_entry AND PTE_V \<noteq> 0
      then sc_getpte_loop n s (PTE_TO_PA (read64 (sc_mem s) pte_entry)) va alloc
      else if \<not> alloc then Ok (s, None)
      else
        case sc_pmem_alloc s True of
          Panic msg \<Rightarrow> Panic msg
        | Ok (s1, new_tbl) \<Rightarrow>
            if new_tbl = 0 then Ok (s1, None)
            else
              let m1 = memset (sc_mem s1) new_tbl 0 PGSIZE;
                  m2 = write64 m1 pte_entry (PA_TO_PTE new_tbl OR PTE_V)
              in sc_getpte_loop n (s1\<lparr>sc_mem := m2\<rparr>) new_tbl va alloc)"

definition sc_vm_getpte :: "sc_state \<Rightarrow> u64 \<Rightarrow> u64 \<Rightarrow> bool \<Rightarrow> (sc_state \<times> u64) result" where
  "sc_vm_getpte s pgtbl va alloc =
     (case sc_getpte_loop 2 s pgtbl va alloc of
        Panic msg \<Rightarrow> Panic msg
      | Ok (s', None) \<Rightarrow> Ok (s', 0)
      | Ok (s', Some tbl) \<Rightarrow> Ok (s', pte_ptr tbl (VA_TO_VPN va 0)))"

text \<open>The body of the \<open>for (;;)\<close> loop of \<open>vm_mappages\<close> for the page at \<open>map_start\<close>.\<close>

definition sc_map_page :: "sc_state \<Rightarrow> u64 \<Rightarrow> u64 \<Rightarrow> u64 \<Rightarrow> u32 \<Rightarrow> sc_state result" where
  "sc_map_page s pgtbl map_start pa perm =
     (case sc_vm_getpte s pgtbl map_start True of
        Panic msg \<Rightarrow> Panic msg
      | Ok (s1, target_pte) \<Rightarrow>
          if target_pte = 0 then Panic ''vm_mappages: fail to get valid pte''
          else if read64 (sc_mem s1) target_pte AND PTE_V \<noteq> 0
          then Panic ''vm_mappages: virtual address already mapped''
          else Ok (s1\<lparr>sc_mem := write64 (sc_mem s1) target_pte
                                    (PA_TO_PTE pa OR perm64 perm OR PTE_V)\<rparr>))"

text \<open>\<open>map_start\<close> and \<open>map_end\<close> are both rounded down to a page, so the loop leaves
  after \<open>(map_end - map_start) / PGSIZE + 1\<close> pages; the first argument counts the pages
  after the current one.\<close>

fun sc_map_loop ::
  "nat \<Rightarrow> sc_state \<Rightarrow> u64 \<Rightarrow> u64 \<Rightarrow> u64 \<Rightarrow> u32 \<Rightarrow> sc_state result" where
  "sc_map_loop 0 s pgtbl map_start pa perm = sc_map_page s pgtbl map_start pa perm"
| "sc_map_loop (Suc k) s pgtbl map_start pa perm =
     (case sc_map_page s pgtbl map_start pa perm of
        Panic msg \<Rightarrow> Panic msg
      | Ok s2 \<Rightarrow> sc_map_loop k s2 pgtbl (map_start + PGSIZE) (pa + PGSIZE) perm)"

definition sc_vm_mappages ::
  "sc_state \<Rightarrow> u64 \<Rightarrow> u64 \<Rightarrow> u64 \<Rightarrow> u64 \<Rightarrow> u32 \<Rightarrow> sc_state result" where
  "sc_vm_mappages s pgtbl va pa len perm =
     (if len = 0 then Panic ''vm_mappages: invalid len (len <= 0)''
      else if va mod PGSIZE \<noteq> 0 \<or> pa mod PGSIZE \<noteq> 0
      then Panic ''vm_mappages: va or pa not page-aligned''
      else if va + len > VA_MAX then Panic ''vm_mappages: va + len exceed VA_MAX''
      else
        let map_start = PG_ROUND_DOWN va;
            map_end = PG_ROUND_DOWN (va + len - 1)
        in sc_map_loop (unat ((map_end - map_start) div PGSIZE)) s pgtbl map_start pa perm)"

section \<open>User address spaces of the system-call lab (kernel/mem/uvm.c)\<close>

definition uvm_get_phys_addr :: "sc_state \<Rightarrow> u64 \<Rightarrow> u64 \<Rightarrow> (sc_state \<times> u64) result" where
  "uvm_get_phys_addr s pgtbl va =
     (if pgtbl = 0 \<or> va \<ge> TRAMPOLINE then Ok (s, 0)
      else
        case sc_vm_getpte s pgtbl va False of
          Panic msg \<Rightarrow> Panic msg
        | Ok (s1, pte) \<Rightarrow>
            if pte = 0 \<or> read64 (sc_mem s1) pte AND PTE_V = 0
               \<or> read64 (sc_mem s1) pte AND PTE_U = 0
            then Ok (s1, 0)
            else
              let pa_frame = PTE_TO_PA (read64 (sc_mem s1) pte);
                  page_offset = va mod PGSIZE
              in Ok (s1, pa_frame + page_offset))"

text \<open>The bytes of the current page that a copy loop still has to move.\<close>

definition copy_len_of :: "u64 \<Rightarrow> u64 \<Rightarrow> u64" where
  "copy_len_of addr remaining =
     (let copy_len = PGSIZE - addr mod PGSIZE
      in if copy_len > remaining then remaining else copy_len)"

lemma copy_len_of_decreases:
  assumes "remaining \<noteq> 0"
  shows "unat (remaining - copy_len_of addr remaining) < unat remaining"
proof -
  have "addr mod 4096 < 4096" by (rule word_mod_less_divisor) simp
  then have "unat (addr mod 4096) < 4096" by (simp add: word_less_nat_alt)
  then have "unat (4096 - addr mod 4096) = 4096 - unat (addr mod 4096)"
    by (simp add: unat_sub word_le_nat_alt)
  then have nz: "4096 - addr mod 4096 \<noteq> 0"
    using \<open>unat (addr mod 4096) < 4096\<close> by (metis unat_0 zero_less_diff less_numeral_extra(3))
  have r: "0 < unat remaining" using assms by (simp add: unat_gt_0)
  show ?thesis
  proof (cases "4096 - addr mod 4096 > remaining")
    case True
    then show ?thesis using r by (simp add: copy_len_of_def PGSIZE_def)
  next
    case False
    then have le: "4096 - addr mod 4096 \<le> remaining" by simp
    have "0 < unat (4096 - addr mod 4096)" using nz by (simp add: unat_gt_0)
    then show ?thesis using False le r
      by (simp add: copy_len_of_def PGSIZE_def unat_sub word_le_nat_alt)
  qed
qed

function uvm_copyin_loop :: "sc_state \<Rightarrow> u64 \<Rightarrow> u64 \<Rightarrow> u64 \<Rightarrow> u64 \<Rightarrow> sc_state result" where
  "uvm_copyin_loop s pgtbl remaining curr_dst curr_src =
     (if remaining \<noteq> 0
      then
        case uvm_get_phys_addr s pgtbl curr_src of
          Panic msg \<Rightarrow> Panic msg
        | Ok (s1, pa) \<Rightarrow>
            if pa = 0 then Panic ''uvm_copyin: invalid user virtual address''
            else
              let page_offset = curr_src mod PGSIZE;
                  copy_len = copy_len_of curr_src remaining;
                  s2 = s1\<lparr>sc_mem := memmove (sc_mem s1) curr_dst (pa + page_offset) copy_len\<rparr>
              in uvm_copyin_loop s2 pgtbl (remaining - copy_len)
                   (curr_dst + copy_len) (curr_src + copy_len)
      else Ok s)"
  by pat_completeness auto
termination
  by (relation "measure (\<lambda>(s, pgtbl, remaining, curr_dst, curr_src). unat remaining)")
     (simp_all add: copy_len_of_decreases)

definition uvm_copyin :: "sc_state \<Rightarrow> u64 \<Rightarrow> u64 \<Rightarrow> u64 \<Rightarrow> u32 \<Rightarrow> sc_state result" where
  "uvm_copyin s pgtbl dst src len =
     (if len = 0 \<or> pgtbl = 0 \<or> dst = 0 \<or> src \<ge> TRAMPOLINE then Ok s
      else uvm_copyin_loop s pgtbl (ucast len) dst src)"

function uvm_copyout_loop :: "sc_state \<Rightarrow> u64 \<Rightarrow> u64 \<Rightarrow> u64 \<Rightarrow> u64 \<Rightarrow> sc_state result" where
  "uvm_copyout_loop s pgtbl remaining curr_dst curr_src =
     (if remaining \<noteq> 0
      then
        case uvm_get_phys_addr s pgtbl curr_dst of
          Panic msg \<Rightarrow> Panic msg
        | Ok (s1, pa) \<Rightarrow>
            if pa = 0 then Panic ''uvm_copyout: invalid user virtual address''
            else
              let page_offset = curr_dst mod PGSIZE;
                  copy_len = copy_len_of curr_dst remaining;
                  s2 = s1\<lparr>sc_mem := memmove (sc_mem s1) (pa + page_offset) curr_src copy_len\<rparr>
              in uvm_copyout_loop s2 pgtbl (remaining - copy_len)
                   (curr_dst + copy_len) (curr_src + copy_len)
      else Ok s)"
  by pat_completeness auto
termination
  by (relation "measure (\<lambda>(s, pgtbl, remaining, curr_dst, curr_src). unat remaining)")
     (simp_all add: copy_len_of_decreases)

definition uvm_copyout :: "sc_state \<Rightarrow> u64 \<Rightarrow> u64 \<Rightarrow> u64 \<Rightarrow> u32 \<Rightarrow> sc_state result" where
  "uvm_copyout s pgtbl dst src len =
     (if len = 0 \<or> pgtbl = 0 \<or> src = 0 \<or> dst \<ge> TRAMPOLINE then Ok s
      else uvm_copyout_loop s pgtbl (ucast len) dst src)"

text \<open>The byte loop of \<open>uvm_copyin_str\<close>: \<open>for (i = 0; i < copy_len; i++)\<close>, leaving at
  the first zero byte written.  The first argument counts the bytes still to do; the
  result says whether a zero byte was found.\<close>

fun str_copy :: "nat \<Rightarrow> memory \<Rightarrow> u64 \<Rightarrow> u64 \<Rightarrow> u64 \<Rightarrow> memory \<times> bool" where
  "str_copy 0 m dst_buf src_buf i = (m, False)"
| "str_copy (Suc n) m dst_buf src_buf i =
     (let m' = m(dst_buf + i := m (src_buf + i))
      in if m' (dst_buf + i) = 0 then (m', True)
         else str_copy n m' dst_buf src_buf (i + 1))"

text \<open>\<open>strlen\<close> is only called after the byte loop has written a zero byte among the
  first \<open>copy_len\<close> bytes, so the scan is bounded by that count.\<close>

fun strlen :: "nat \<Rightarrow> memory \<Rightarrow> u64 \<Rightarrow> u64" where
  "strlen 0 m p = 0"
| "strlen (Suc n) m p = (if m p = 0 then 0 else 1 + strlen n m (p + 1))"

function uvm_copyin_str_loop ::
  "sc_state \<Rightarrow> u64 \<Rightarrow> u64 \<Rightarrow> u64 \<Rightarrow> u64 \<Rightarrow> bool \<Rightarrow> (sc_state \<times> bool) result" where
  "uvm_copyin_str_loop s pgtbl remaining curr_dst curr_src found_null =
     (if remaining \<noteq> 0 \<and> \<not> found_null
      then
        case uvm_get_phys_addr s pgtbl curr_src of
          Panic msg \<Rightarrow> Panic msg
        | Ok (s1, pa) \<Rightarrow>
            if pa = 0 then Panic ''uvm_copyin_str: invalid user virtual address''
            else
              let page_offset = curr_src mod PGSIZE;
                  copy_len = copy_len_of curr_src remaining;
                  (m', found) = str_copy (unat copy_len) (sc_mem s1) curr_dst (pa + page_offset) 0;
                  actual = (if found then strlen (unat copy_len) m' curr_dst + 1 else copy_len);
                  actual_copy = (if actual > remaining then remaining else actual)
              in uvm_copyin_str_loop (s1\<lparr>sc_mem := m'\<rparr>) pgtbl (remaining - actual_copy)
                   (curr_dst + actual_copy) (curr_src + actual_copy) found
      else Ok (s, found_null))"
  by pat_completeness auto
termination
  by (relation "measure (\<lambda>(s, pgtbl, remaining, curr_dst, curr_src, found_null).
                   if found_null then 0 else Suc (unat remaining))")
     (auto simp add: copy_len_of_decreases unat_gt_0)

definition uvm_copyin_str :: "sc_state \<Rightarrow> u64 \<Rightarrow> u64 \<Rightarrow> u64 \<Rightarrow> u32 \<Rightarrow> sc_state result" where
  "uvm_copyin_str s pgtbl dst src maxlen =
     (if maxlen = 0 \<or> pgtbl = 0 \<or> dst = 0 \<or> src \<ge> TRAMPOLINE then Ok s
      else
        case uvm_copyin_str_loop s pgtbl (ucast maxlen) dst src False of
          Panic msg \<Rightarrow> Panic msg
        | Ok (s1, found_null) \<Rightarrow>
            if \<not> found_null \<and> maxlen > 0
            then Ok (s1\<lparr>sc_mem := (sc_mem s1)(dst + ucast (maxlen - 1) := 0)\<rparr>)
            else Ok s1)"

text \<open>The body of the loop of \<open>copy_range\<close> for the page at \<open>va\<close>.\<close>

definition copy_page :: "sc_state \<Rightarrow> u64 \<Rightarrow> u64 \<Rightarrow> u64 \<Rightarrow> sc_state result" where
  "copy_page s old new va =
     (case sc_vm_getpte s old va False of
        Panic msg \<Rightarrow> Panic msg
      | Ok (s1, pte) \<Rightarrow>
          if pte = 0 then Panic ''uvm_copy_pgtbl: pte == NULL''
          else if read64 (sc_mem s1) pte AND PTE_V = 0 then Panic ''uvm_copy_pgtbl: pte not valid''
          else
            let pa = PTE_TO_PA (read64 (sc_mem s1) pte);
                flags = ucast (PTE_FLAGS (read64 (sc_mem s1) pte))
            in case sc_pmem_alloc s1 False of
                 Panic msg \<Rightarrow> Panic msg
               | Ok (s2, page) \<Rightarrow>
                   if page = 0 then Panic ''copy_range: failed to alloc physical page''
                   else
                     let s3 = s2\<lparr>sc_mem := memmove (sc_mem s2) page pa PGSIZE\<rparr>
                     in sc_vm_mappages s3 new va page PGSIZE flags)"

text \<open>\<open>for (va = begin; va < end; va += PGSIZE)\<close>: when \<open>end\<close> lies in the last page of the
  64-bit space the addition can wrap and the loop need not terminate, so the loop is a
  partial function; \<open>None\<close> is a run that never returns.\<close>

partial_function (option) copy_range ::
  "sc_state \<Rightarrow> u64 \<Rightarrow> u64 \<Rightarrow> u64 \<Rightarrow> u64 \<Rightarrow> sc_state result option" where
  "copy_range s old new va end_va =
     (if va < end_va
      then
        case copy_page s old new va of
          Panic msg \<Rightarrow> Some (Panic msg)
        | Ok s' \<Rightarrow> copy_range s' old new (va + PGSIZE) end_va
      else Some (Ok s))"

text \<open>A \<open>mmap_region_t\<close> node; the list of nodes is the chain of \<open>next\<close> pointers (the nodes
  live in a static pool of the kernel, not in allocated frames).\<close>

record mmap_region =
  mm_begin :: u64
  npages :: u32

fun copy_mmap :: "sc_state \<Rightarrow> u64 \<Rightarrow> u64 \<Rightarrow> u64 \<Rightarrow> mmap_region list \<Rightarrow> sc_state result option" where
  "copy_mmap s old new heap_top [] = Some (Ok s)"
| "copy_mmap s old new heap_top (r # rs) =
     (let mmap_begin = mm_begin r;
          mmap_end = mmap_begin + ucast (npages r * 4096)
      in if \<not> (mmap_begin \<ge> heap_top \<and> mmap_end < TRAPFRAME)
         then Some (Panic ''uvm_copy_pgtbl: invalid mmap region'')
         else
           case copy_range s old new mmap_begin mmap_end of
             None \<Rightarrow> None
           | Some (Panic msg) \<Rightarrow> Some (Panic msg)
           | Some (Ok s') \<Rightarrow> copy_mmap s' old new heap_top rs)"

definition uvm_copy_pgtbl ::
  "sc_state \<Rightarrow> u64 \<Rightarrow> u64 \<Rightarrow> u64 \<Rightarrow> u32 \<Rightarrow> mmap_region list \<Rightarrow> sc_state result option" where
  "uvm_copy_pgtbl s old new heap_top ustack_pages mmap =
     (if \<not> (old \<noteq> 0 \<and> new \<noteq> 0) then Some (Panic ''uvm_copy_pgtbl: invalid pagetable'')
      else if heap_top mod PGSIZE \<noteq> 0 then Some (Panic ''uvm_copy_pgtbl: heap_top not aligned'')
      else
        let USER_BASE = PGSIZE;
            r1 = (if USER_BASE < heap_top then copy_range s old new USER_BASE heap_top
                  else Some (Ok s))
        in case r1 of
             None \<Rightarrow> None
           | Some (Panic msg) \<Rightarrow> Some (Panic msg)
           | Some (Ok s1) \<Rightarrow>
               let USTACK_BASE = TRAPFRAME - PGSIZE;
                   ustack_bottom = USTACK_BASE - ucast (ustack_pages * 4096);
                   r2 = (if ustack_pages > 0 \<and> ustack_bottom < USTACK_BASE
                         then copy_range s1 old new ustack_bottom USTACK_BASE
                         else Some (Ok s1))
               in case r2 of
                    None \<Rightarrow> None
                  | Some (Panic msg) \<Rightarrow> Some (Panic msg)
                  | Some (Ok s2) \<Rightarrow> copy_mmap s2 old new heap_top mmap)"

text \<open>\<open>destroy_pgtbl\<close>: the first argument is \<open>level\<close>, the second counts the entries of
  the table still to visit (\<open>i = 512 - k\<close>).  A table of level 0 is never entered.\<close>

fun destroy_walk :: "nat \<Rightarrow> nat \<Rightarrow> sc_state \<Rightarrow> u64 \<Rightarrow> sc_state result" where
  "destroy_walk level 0 s pgtbl = Ok s"
| "destroy_walk 0 (Suc k) s pgtbl = Ok s"
| "destroy_walk (Suc l) (Suc k) s pgtbl =
     (let pte = pte_ptr pgtbl (of_nat (511 - k));
          e = read64 (sc_mem s) pte
      in if e AND PTE_V = 0 then destroy_walk (Suc l) k s pgtbl
         else if e AND (PTE_R OR PTE_W OR PTE_X) = 0
         then
           let child_pa = PTE_TO_PA e in
           case (if child_pa = 0 then Ok s else destroy_walk l 512 s child_pa) of
             Panic msg \<Rightarrow> Panic msg
           | Ok s1 \<Rightarrow>
               (case sc_pmem_free s1 child_pa True of
                  Panic msg \<Rightarrow> Panic msg
                | Ok s2 \<Rightarrow> destroy_walk (Suc l) k s2 pgtbl)
         else
           case (if e AND PTE_U \<noteq> 0 then sc_pmem_free s (PTE_TO_PA e) False else Ok s) of
             Panic msg \<Rightarrow> Panic msg
           | Ok s1 \<Rightarrow>
               destroy_walk (Suc l) k
                 (s1\<lparr>sc_mem := write64 (sc_mem s1) pte (read64 (sc_mem s1) pte AND NOT PTE_V)\<rparr>)
                 pgtbl)"

definition destroy_pgtbl :: "sc_state \<Rightarrow> u64 \<Rightarrow> nat \<Rightarrow> sc_state result" where
  "destroy_pgtbl s pgtbl level = (if pgtbl = 0 \<or> level = 0 then Ok s else destroy_walk level 512 s pgtbl)"

definition uvm_destroy_pgtbl :: "sc_state \<Rightarrow> u64 \<Rightarrow> sc_state result" where
  "uvm_destroy_pgtbl s pgtbl =
     (if pgtbl = 0 then Ok s
      else
        case destroy_pgtbl s pgtbl 3 of
          Panic msg \<Rightarrow> Panic msg
        | Ok s1 \<Rightarrow> sc_pmem_free (s1\<lparr>sc_mem := memset (sc_mem s1) pgtbl 0 PGSIZE\<rparr>) pgtbl False)"

section \<open>Small machines for evaluation\<close>

text \<open>\<open>link_frames\<close> threads the given frames into a free list, each frame holding the
  address of the next in its first eight bytes, the last one holding \<open>NULL\<close>.\<close>

fun link_frames :: "memory \<Rightarrow> u64 list \<Rightarrow> memory" where
  "link_frames m [] = m"
| "link_frames m [a] = write64 m a 0"
| "link_frames m (a # b # r) = link_frames (write64 m a b) (b # r)"

text \<open>A machine of the system-call lab with a kernel region of four frames at
  \<open>0x80400000\<close> and a user region of four frames behind it, all free; stale bytes
  \<open>0x55\<close> everywhere else.\<close>

definition sc_demo :: sc_state where
  "sc_demo =
     \<lparr>sc_mem = link_frames (link_frames (\<lambda>_. 0x55)
                  [0x80400000, 0x80401000, 0x80402000, 0x80403000])
                  [0x80404000, 0x80405000, 0x80406000, 0x80407000],
      kern_region = \<lparr>rg_begin = 0x80400000, rg_end = 0x80404000, allocable = 4,
                      list_head_next = 0x80400000\<rparr>,
      user_region = \<lparr>rg_begin = 0x80404000, rg_end = 0x80408000, allocable = 4,
                      list_head_next = 0x80404000\<rparr>\<rparr>"

text \<open>The same machine with both free lists empty.\<close>

definition sc_exhausted :: sc_state where
  "sc_exhausted =
     \<lparr>sc_mem = (\<lambda>_. 0x55),
      kern_region = \<lparr>rg_begin = 0x80400000, rg_end = 0x80404000, allocable = 0,
                      list_head_next = 0\<rparr>,
      user_region = \<lparr>rg_begin = 0x80404000, rg_end = 0x80408000, allocable = 0,
                      list_head_next = 0\<rparr>\<rparr>"

text \<open>A week3 machine: the kernel image ends at \<open>0x80200000\<close>, memory is zero, both free
  lists are empty, nothing has been printed.\<close>

definition week3_fresh :: week3_state where
  "week3_fresh =
     \<lparr>w_mem = (\<lambda>_. 0),
      kmem = \<lparr>freelist_kernel = 0, freelist_user = 0,
               kernel_pages_used = 0, user_pages_used = 0\<rparr>,
      console = [],
      kernel_end = 0x80200000\<rparr>"

text \<open>The week3 machine after three frames were given to the kernel free list and
  \<open>vm_create\<close> has taken the first of them, \<open>0x80400000\<close>, as an empty root table.\<close>

definition week3_demo :: week3_state where
  "week3_demo =
     fst (week3_vm_create
       (the_Ok (week3_pmem_free (the_Ok (week3_pmem_free (the_Ok (week3_pmem_free week3_fresh
          0x80402000 True)) 0x80401000 True)) 0x80400000 True)))"

text \<open>The same week3 machine after \<open>va = 0x1000\<close> was mapped to \<open>0x80600000\<close> with R
  and W.\<close>

definition week3_mapped :: week3_state where
  "week3_mapped =
     (case week3_vm_mappages week3_demo 0x80400000 0x1000 0x80600000 PGSIZE 6 of
        Ok s \<Rightarrow> s
      | Panic msg \<Rightarrow> week3_demo)"

text \<open>The machine of the system-call lab after \<open>proc_pgtbl_init\<close> has taken the first user
  frame, \<open>0x80404000\<close>, as an empty root table (\<open>pmem_alloc(false)\<close> and \<open>memset\<close>).\<close>

definition sc_proc :: sc_state where
  "sc_proc =
     (case sc_pmem_alloc sc_demo False of
        Ok (s, pagetable) \<Rightarrow> s\<lparr>sc_mem := memset (sc_mem s) pagetable 0 PGSIZE\<rparr>
      | Panic msg \<Rightarrow> sc_demo)"

text \<open>The same machine after the next user frame, \<open>0x80405000\<close>, was allocated and
  mapped at \<open>va = 0x1000\<close> with R, W and U.\<close>

definition sc_mapped :: sc_state where
  "sc_mapped =
     (case sc_pmem_alloc sc_proc False of
        Ok (s, page) \<Rightarrow>
          (case sc_vm_mappages s 0x80404000 0x1000 page PGSIZE 0x16 of
             Ok s' \<Rightarrow> s'
           | Panic msg \<Rightarrow> s)
      | Panic msg \<Rightarrow> sc_proc)"

text \<open>The same machine after the next user frame, \<open>0x80406000\<close>, was allocated as the
  trap frame of the process, filled with the bytes \<open>0x77\<close> (saved registers) and mapped
  at \<open>TRAPFRAME\<close> with R and W but without U, as \<open>proc_pgtbl_init\<close> does.\<close>

definition sc_trapframe :: sc_state where
  "sc_trapframe =
     (case sc_pmem_alloc sc_mapped False of
        Ok (s, page) \<Rightarrow>
          (case sc_vm_mappages (s\<lparr>sc_mem := memset (sc_mem s) page 0x77 PGSIZE\<rparr>)
                  0x80404000 TRAPFRAME page PGSIZE 6 of
             Ok s' \<Rightarrow> s'
           | Panic msg \<Rightarrow> s)
      | Panic msg \<Rightarrow> sc_mapped)"

section \<open>Facts about the store\<close>

lemma diff_less_8: "k \<le> n \<Longrightarrow> (n - k < (8::nat)) = (n < k + 8)"
  by arith

lemma byte_recompose:
  "ucast (ucast (v::u64) :: u8) OR push_bit 8 (ucast (ucast (drop_bit 8 v) :: u8))
     OR push_bit 16 (ucast (ucast (drop_bit 16 v) :: u8))
     OR push_bit 24 (ucast (ucast (drop_bit 24 v) :: u8))
     OR push_bit 32 (ucast (ucast (drop_bit 32 v) :: u8))
     OR push_bit 40 (ucast (ucast (drop_bit 40 v) :: u8))
     OR push_bit 48 (ucast (ucast (drop_bit 48 v) :: u8))
     OR push_bit 56 (ucast (ucast (drop_bit 56 v) :: u8)) = v"
  apply (rule bit_word_eqI)
  apply (simp add: bit_or_iff bit_push_bit_iff bit_ucast_iff bit_drop_bit_eq diff_less_8
      less_imp_diff_less cong: conj_cong)
  subgoal for n
    apply (cases "bit v n")
     apply simp_all
    apply linarith
    done
  done

lemma read64_write64_same: "read64 (write64 m a v) a = v"
  unfolding read64_def write64_def
  by (simp add: byte_recompose)

lemma read64_cong:
  assumes "\<And>i. i < 8 \<Longrightarrow> m (a + i) = m' (a + i)"
  shows "read64 m a = read64 m' a"
proof -
  have "m (a + 0) = m' (a + 0)" "m (a + 1) = m' (a + 1)" "m (a + 2) = m' (a + 2)"
    "m (a + 3) = m' (a + 3)" "m (a + 4) = m' (a + 4)" "m (a + 5) = m' (a + 5)"
    "m (a + 6) = m' (a + 6)" "m (a + 7) = m' (a + 7)"
    by (rule assms, simp)+
  then show ?thesis unfolding read64_def by simp
qed

lemma aligned_unat: "((x::u64) mod PGSIZE = 0) = (4096 dvd unat x)"
proof -
  have "(x mod 4096 = 0) = (unat (x mod 4096) = 0)" by (simp add: unat_eq_0)
  also have "\<dots> = (unat x mod 4096 = 0)" by (simp add: unat_mod)
  finally show ?thesis by (simp add: dvd_eq_mod_eq_0 PGSIZE_def)
qed

lemma aligned_diff:
  assumes "(f::u64) mod PGSIZE = 0" "g mod PGSIZE = 0"
  shows "(f - g) mod PGSIZE = 0"
proof -
  have a: "4096 dvd unat f" "4096 dvd unat g" using assms by (simp_all add: aligned_unat)
  have b: "(4096::nat) dvd 18446744073709551616" by simp
  have "4096 dvd unat (f - g)"
    using a b by (simp add: unat_sub_if' dvd_diff_nat)
  then show ?thesis by (simp add: aligned_unat)
qed

lemma aligned_nonzero_bounds:
  assumes "(d::u64) mod PGSIZE = 0" "d \<noteq> 0"
  shows "4096 \<le> unat d \<and> unat d + 4096 \<le> 2 ^ 64"
proof -
  from assms(1) obtain k where k: "unat d = 4096 * k" by (auto simp: aligned_unat)
  have "unat d \<noteq> 0" using assms(2) by (simp add: unat_eq_0)
  then have k1: "1 \<le> k" using k by (cases k) auto
  have "unat d < 2 ^ 64" using unsigned_less [of d, where ?'a = nat] by simp
  then have "4096 * k < 4096 * 4503599627370496" using k by simp
  then have "k < 4503599627370496" by simp
  then show ?thesis using k k1 by simp
qed

lemma other_frame:
  assumes "(f::u64) mod PGSIZE = 0" "g mod PGSIZE = 0" "f \<noteq> g" "x < PGSIZE"
  shows "\<not> (f + x - g < PGSIZE)"
proof -
  let ?d = "f - g"
  have d: "?d mod PGSIZE = 0" "?d \<noteq> 0" using assms by (simp_all add: aligned_diff)
  note b = aligned_nonzero_bounds [OF d]
  have x: "unat x < 4096" using assms(4) by (simp add: word_less_nat_alt PGSIZE_def)
  have "unat (?d + x) = unat ?d + unat x"
    using b x by (subst unat_add_lem [symmetric]) simp
  then have ge: "4096 \<le> unat (?d + x)" using b by simp
  have eq: "f + x - g = ?d + x" by simp
  have "4096 \<le> unat (f + x - g)" by (subst eq) (rule ge)
  then show ?thesis by (simp add: word_less_nat_alt PGSIZE_def)
qed

text \<open>A range of \<open>n\<close> bytes at offset \<open>off\<close> of a frame lies in the frame.\<close>

lemma range_in_frame:
  assumes "unat off + unat n \<le> 4096" "(y::u64) - (g + off) < n"
  shows "y - g < PGSIZE"
proof -
  let ?r = "y - (g + off)"
  have r: "unat ?r < unat n" using assms(2) by (simp add: word_less_nat_alt)
  have "unat (?r + off) = unat ?r + unat off"
    using r assms(1) by (subst unat_add_lem [symmetric]) simp
  then have lt: "unat (?r + off) < 4096" using r assms(1) by simp
  have eq: "y - g = ?r + off" by simp
  have "unat (y - g) < 4096" by (subst eq) (rule lt)
  then show ?thesis by (simp add: word_less_nat_alt PGSIZE_def)
qed

lemma frame_byte:
  assumes "(y::u64) - g < PGSIZE"
  shows "\<exists>x. x < PGSIZE \<and> y = g + x"
  using assms by (intro exI [of _ "y - g"]) simp

lemma write_other_frame:
  assumes al: "(f::u64) mod PGSIZE = 0" "g mod PGSIZE = 0" "f \<noteq> g"
    and x: "x < PGSIZE" and rng: "unat off + unat n \<le> 4096"
  shows "\<not> (f + x - (g + off) < n)"
proof
  assume "f + x - (g + off) < n"
  then have "f + x - g < PGSIZE" using rng by (rule range_in_frame [rotated])
  then show False using other_frame [OF al x] by simp
qed


lemma off_add_in_frame:
  assumes "(off::u64) \<le> 4088" "i < 8"
  shows "off + i < PGSIZE"
proof -
  have "unat off \<le> 4088" "unat i < 8"
    using assms by (simp_all add: word_le_nat_alt word_less_nat_alt)
  then have "unat (off + i) = unat off + unat i"
    by (subst unat_add_lem [symmetric]) simp
  then show ?thesis using \<open>unat off \<le> 4088\<close> \<open>unat i < 8\<close>
    by (simp add: word_less_nat_alt PGSIZE_def)
qed

lemma read64_frame_cong:
  assumes "\<And>x. x < PGSIZE \<Longrightarrow> m (f + x) = m' (f + x)" "off \<le> 4088"
  shows "read64 m (f + off) = read64 m' (f + off)"
proof (rule read64_cong)
  fix i :: u64 assume "i < 8"
  then have "off + i < PGSIZE" using assms(2) by (simp add: off_add_in_frame)
  then have "m (f + (off + i)) = m' (f + (off + i))" by (rule assms(1))
  then show "m (f + off + i) = m' (f + off + i)" by (simp add: add.assoc)
qed

lemma memset_frame_same: "x < PGSIZE \<Longrightarrow> memset m f c PGSIZE (f + x) = c"
  by (simp add: memset_def)

lemma memset_frame_other:
  "f mod PGSIZE = 0 \<Longrightarrow> g mod PGSIZE = 0 \<Longrightarrow> f \<noteq> g \<Longrightarrow> x < PGSIZE \<Longrightarrow>
   memset m g c PGSIZE (f + x) = m (f + x)"
  by (simp add: memset_def other_frame)

lemma write64_frame_other:
  "f mod PGSIZE = 0 \<Longrightarrow> g mod PGSIZE = 0 \<Longrightarrow> f \<noteq> g \<Longrightarrow> x < PGSIZE \<Longrightarrow> off \<le> 4088 \<Longrightarrow>
   write64 m (g + off) v (f + x) = m (f + x)"
  by (simp add: write64_def write_other_frame word_le_nat_alt)

lemma memmove_frame_same: "x < PGSIZE \<Longrightarrow> memmove m f src PGSIZE (f + x) = m (src + x)"
  by (simp add: memmove_def)

lemma memmove_frame_other:
  "f mod PGSIZE = 0 \<Longrightarrow> g mod PGSIZE = 0 \<Longrightarrow> f \<noteq> g \<Longrightarrow> x < PGSIZE \<Longrightarrow>
   memmove m g src PGSIZE (f + x) = m (f + x)"
  by (simp add: memmove_def other_frame)

lemma vpn_le: "VA_TO_VPN va l \<le> 511"
  by (simp add: VA_TO_VPN_def word_and_le1)

lemma idx_off: "(i::u64) \<le> 511 \<Longrightarrow> 8 * i \<le> 4088"
proof -
  assume "i \<le> 511"
  then have i: "unat i \<le> 511" by (simp add: word_le_nat_alt)
  then have "unat (8 * i) = 8 * unat i"
    by (subst unat_mult_lem [THEN iffD1]) simp_all
  then show ?thesis using i by (simp add: word_le_nat_alt)
qed

lemma vpn_off: "8 * VA_TO_VPN va l \<le> 4088"
  by (rule idx_off) (rule vpn_le)

section \<open>Allocation: zero fill and failure policy\<close>

lemma sc_vm_getpte_lookup_state:
  "sc_getpte_loop n s pgtbl va False = Ok (s', r) \<Longrightarrow> s' = s"
  by (induction n arbitrary: pgtbl) (auto simp: Let_def split: if_splits)

text \<open>
  Claim C7, as amended.  In the system-call lab every frame that \<open>pmem_alloc\<close> returns,
  from either region, holds only zero bytes in the state handed back to the caller.
  (The week3 allocator does not clear the frame; see the counterexample.)
\<close>

theorem sc_pmem_alloc_zero_filled:
  assumes "sc_pmem_alloc s in_kernel = Ok (s', page)" "x < PGSIZE"
  shows "sc_mem s' (page + x) = 0"
  using assms
  by (auto simp: sc_pmem_alloc_def Let_def set_target_region_def memset_frame_same
      split: if_splits)

theorem sc_pmem_alloc_zero_filled_witness:
  "\<exists>s'. sc_pmem_alloc sc_demo False = Ok (s', 0x80404000) \<and> (16::u64) < PGSIZE
     \<and> sc_mem sc_demo (0x80404000 + 16) = 0x55 \<and> sc_mem s' (0x80404000 + 16) = 0"
proof -
  obtain s' where a: "sc_pmem_alloc sc_demo False = Ok (s', 0x80404000)"
    by (simp add: sc_pmem_alloc_def sc_demo_def target_region_def Let_def)
  have b: "(16::u64) < PGSIZE" by (simp add: PGSIZE_def)
  have c: "sc_mem sc_demo (0x80404000 + 16) = 0x55"
    by (simp add: sc_demo_def write64_def)
  from sc_pmem_alloc_zero_filled [OF a b] a b c show ?thesis by blast
qed

theorem week3_pmem_alloc_stale_counterexample:
  "is_Ok (week3_pmem_free week3_fresh 0x80400000 True)
   \<and> snd (week3_pmem_alloc (the_Ok (week3_pmem_free week3_fresh 0x80400000 True)) True)
       = 0x80400000
   \<and> w_mem (fst (week3_pmem_alloc (the_Ok (week3_pmem_free week3_fresh 0x80400000 True)) True))
        (0x80400000 + 8) = 0xAA"
  by (simp add: week3_pmem_alloc_def week3_pmem_free_def week3_fresh_def Let_def printf_def
      PGSIZE_def PG_ROUND_UP_def KERNEL_PAGES_def PHYS_TOP_def memset_def write64_def
      read64_def)

text \<open>
  Claim C5, as amended.  In the system-call lab \<open>pmem_alloc\<close> on an empty free list
  panics, whichever region is asked for.  In week3 an allocation from the empty user
  list returns \<open>NULL\<close> and changes nothing.
\<close>

theorem pmem_alloc_empty_list:
  "(list_head_next (target_region s in_kernel) = 0 \<longrightarrow>
      sc_pmem_alloc s in_kernel = Panic ''pmem_alloc: no available physical pages '')
   \<and> (freelist_user (kmem w) = 0 \<longrightarrow> week3_pmem_alloc w False = (w, 0))"
  by (simp add: sc_pmem_alloc_def week3_pmem_alloc_def Let_def)

theorem pmem_alloc_empty_list_witness:
  "list_head_next (target_region sc_exhausted True) = 0
   \<and> sc_pmem_alloc sc_exhausted True = Panic ''pmem_alloc: no available physical pages ''
   \<and> freelist_user (kmem week3_fresh) = 0
   \<and> week3_pmem_alloc week3_fresh False = (week3_fresh, 0)"
proof -
  have a: "list_head_next (target_region sc_exhausted True) = 0"
    by (simp add: sc_exhausted_def target_region_def)
  have b: "freelist_user (kmem week3_fresh) = 0" by (simp add: week3_fresh_def)
  from pmem_alloc_empty_list [of sc_exhausted True week3_fresh] a b show ?thesis by simp
qed

theorem sc_pmem_alloc_user_fatal_counterexample:
  "sc_pmem_alloc sc_exhausted False = Panic ''pmem_alloc: no available physical pages ''"
  by (simp add: sc_pmem_alloc_def sc_exhausted_def target_region_def)

section \<open>Facts about addresses and entries\<close>

lemma aligned_take_bit: "(a::u64) mod PGSIZE = 0 \<Longrightarrow> take_bit 12 a = 0"
  by (simp add: take_bit_eq_mod PGSIZE_def)

lemma aligned_bit: "(a::u64) mod PGSIZE = 0 \<Longrightarrow> bit a n \<Longrightarrow> 12 \<le> n"
proof (rule ccontr)
  assume a: "a mod PGSIZE = 0" and b: "bit a n" and "\<not> 12 \<le> n"
  then have "bit (take_bit 12 a) n" by (simp add: bit_take_bit_iff)
  then show False using a by (simp add: aligned_take_bit)
qed

lemma small_bit: "(x::u64) < 2 ^ k \<Longrightarrow> bit x n \<Longrightarrow> n < k"
proof (rule ccontr)
  assume a: "x < 2 ^ k" and b: "bit x n" and c: "\<not> n < k"
  have "take_bit k x = x" using less_mask_eq [OF a] by (simp add: take_bit_eq_mask)
  then have "bit (take_bit k x) n" using b by simp
  then show False using c by (simp add: bit_take_bit_iff)
qed

lemma offset_bit: "(x::u64) < PGSIZE \<Longrightarrow> bit x n \<Longrightarrow> n < 12"
  using small_bit [of x 12 n] by (simp add: PGSIZE_def)

lemma aligned_add_or:
  assumes "(a::u64) mod PGSIZE = 0" "x < PGSIZE"
  shows "a + x = a OR x"
proof (rule disjunctive_add_eq_or)
  show "a AND x = 0"
  proof (rule bit_word_eqI)
    fix n assume "n < LENGTH(64)"
    show "bit (a AND x) n = bit (0::u64) n"
      using aligned_bit [OF assms(1), of n] offset_bit [OF assms(2), of n]
      by (auto simp: bit_and_iff)
  qed
qed

lemma vpn_add_offset:
  assumes "(a::u64) mod PGSIZE = 0" "x < PGSIZE"
  shows "VA_TO_VPN (a + x) l = VA_TO_VPN a l"
proof -
  have "drop_bit (12 + 9 * l) x = 0"
  proof (rule bit_word_eqI)
    fix n assume "n < LENGTH(64)"
    show "bit (drop_bit (12 + 9 * l) x) n = bit (0::u64) n"
      using offset_bit [OF assms(2), of "12 + 9 * l + n"] by (auto simp: bit_drop_bit_eq)
  qed
  then show ?thesis
    by (simp add: VA_TO_VPN_def VA_SHIFT_def aligned_add_or [OF assms] drop_bit_or)
qed

lemma page_offset_add:
  assumes "(a::u64) mod PGSIZE = 0" "x < PGSIZE"
  shows "(a + x) AND (PGSIZE - 1) = x"
proof -
  have m: "PGSIZE - 1 = mask 12" by (simp add: PGSIZE_def mask_eq_exp_minus_1)
  show ?thesis
    unfolding aligned_add_or [OF assms] m
  proof (rule bit_word_eqI)
    fix n assume "n < LENGTH(64)"
    show "bit ((a OR x) AND mask 12) n = bit x n"
      using aligned_bit [OF assms(1), of n] offset_bit [OF assms(2), of n]
      by (auto simp: bit_and_iff bit_or_iff bit_mask_iff)
  qed
qed

lemma page_offset_mod:
  assumes "(a::u64) mod PGSIZE = 0" "x < PGSIZE"
  shows "(a + x) mod PGSIZE = x"
proof -
  have "(a + x) mod PGSIZE = take_bit 12 (a + x)" by (simp add: take_bit_eq_mod PGSIZE_def)
  also have "\<dots> = (a + x) AND mask 12" by (simp add: take_bit_eq_mask)
  also have "\<dots> = (a + x) AND (PGSIZE - 1)" by (simp add: PGSIZE_def mask_eq_exp_minus_1)
  finally show ?thesis by (simp add: page_offset_add [OF assms])
qed

lemma PTE_TO_PA_aligned: "PTE_TO_PA e mod PGSIZE = 0"
proof -
  have "take_bit 12 (PTE_TO_PA e) = 0"
    by (rule bit_word_eqI) (auto simp: PTE_TO_PA_def bit_take_bit_iff bit_push_bit_iff)
  then show ?thesis by (simp add: take_bit_eq_mod PGSIZE_def)
qed

lemma PTE_TO_PA_of_PA:
  assumes "pa mod PGSIZE = 0" "fl < 1024"
  shows "PTE_TO_PA (PA_TO_PTE pa OR fl) = pa"
proof (rule bit_word_eqI)
  fix n assume n: "n < LENGTH(64)"
  have f: "\<And>k. bit fl k \<Longrightarrow> k < 10" using small_bit [of fl 10] assms(2) by simp
  have a: "bit pa n \<Longrightarrow> 12 \<le> n" using aligned_bit [OF assms(1)] .
  show "bit (PTE_TO_PA (PA_TO_PTE pa OR fl)) n = bit pa n"
    using n a f [of "n - 12 + 10"]
    by (auto simp: PTE_TO_PA_def PA_TO_PTE_def bit_push_bit_iff bit_drop_bit_eq bit_or_iff)
qed


lemma bits_less:
  assumes "\<And>n. bit (x::u64) n \<Longrightarrow> n < k" "k < 64"
  shows "x < 2 ^ k"
proof -
  have "x AND mask k = x"
    by (rule bit_word_eqI) (auto simp: bit_and_iff bit_mask_iff dest: assms(1))
  moreover have "x AND mask k < 2 ^ k" using assms(2) by (simp add: and_mask_less')
  ultimately show ?thesis by simp
qed

lemma and_not_zero:
  assumes "(x::'a::len word) AND NOT c = 0"
  shows "x AND c = x"
proof (rule bit_word_eqI)
  fix k assume k: "k < LENGTH('a)"
  have "\<not> bit (x AND NOT c) k" using assms by simp
  then show "bit (x AND c) k = bit x k"
    using k by (auto simp: bit_and_iff bit_not_iff)
qed

lemma perm_bits:
  assumes "(perm::u32) AND NOT 62 = 0" "bit (perm64 perm) n"
  shows "n < 6"
proof -
  have "perm AND 62 = perm" using assms(1) by (rule and_not_zero)
  then have "perm \<le> 62" by (metis word_and_le1)
  then have "unat perm \<le> 62" by (simp add: word_le_nat_alt)
  then have "perm < 64" by (simp add: word_less_nat_alt)
  then have lt: "perm < 2 ^ 6" by simp
  have sm: "\<And>k. bit perm k \<Longrightarrow> k < 6"
  proof (rule ccontr)
    fix k assume b: "bit perm k" and c: "\<not> k < 6"
    have "take_bit 6 perm = perm" using less_mask_eq [OF lt] by (simp add: take_bit_eq_mask)
    then have "bit (take_bit 6 perm) k" using b by simp
    then show False using c by (simp add: bit_take_bit_iff)
  qed
  from assms(2) have "bit perm n \<or> bit perm 31"
    by (auto simp: perm64_def bit_word_scast_iff)
  then show ?thesis using sm [of n] sm [of 31] by auto
qed

lemma leaf_flags_small:
  assumes "(perm::u32) AND NOT 62 = 0"
  shows "perm64 perm OR PTE_V < 1024"
proof -
  have "bit PTE_V n \<Longrightarrow> n < 10" for n using small_bit [of PTE_V 10 n] by (simp add: PTE_V_def)
  then have "perm64 perm OR PTE_V < 2 ^ 10"
    by (intro bits_less) (auto simp: bit_or_iff dest: perm_bits [OF assms])
  then show ?thesis by simp
qed

lemma leaf_entry_pa:
  assumes "pa mod PGSIZE = 0" "(perm::u32) AND NOT 62 = 0"
  shows "PTE_TO_PA (PA_TO_PTE pa OR perm64 perm OR PTE_V) = pa"
  using PTE_TO_PA_of_PA [OF assms(1) leaf_flags_small [OF assms(2)]] by (simp add: or.assoc)

lemma table_entry_pa:
  assumes "pa mod PGSIZE = 0"
  shows "PTE_TO_PA (PA_TO_PTE pa OR PTE_V OR PTE_G) = pa" "PTE_TO_PA (PA_TO_PTE pa OR PTE_V) = pa"
proof -
  have "PTE_V OR PTE_G < 1024" "PTE_V < 1024" by (simp_all add: PTE_V_def PTE_G_def)
  then show "PTE_TO_PA (PA_TO_PTE pa OR PTE_V OR PTE_G) = pa" "PTE_TO_PA (PA_TO_PTE pa OR PTE_V) = pa"
    using PTE_TO_PA_of_PA [OF assms] by (simp_all add: or.assoc)
qed

lemma bit_nonzero: "bit (x::u64) n \<Longrightarrow> x \<noteq> 0"
  by auto

lemma or_valid: "(e OR PTE_V) AND PTE_V \<noteq> 0" "(e OR PTE_V OR PTE_G) AND PTE_V \<noteq> 0"
proof -
  have a: "bit ((e OR PTE_V) AND PTE_V) 0" and b: "bit ((e OR PTE_V OR PTE_G) AND PTE_V) 0"
    by (simp_all add: bit_and_iff bit_or_iff PTE_V_def)
  show "(e OR PTE_V) AND PTE_V \<noteq> 0" using a by (rule bit_nonzero)
  show "(e OR PTE_V OR PTE_G) AND PTE_V \<noteq> 0" using b by (rule bit_nonzero)
qed

lemma leaf_not_table:
  assumes "perm64 perm AND (PTE_R OR PTE_W OR PTE_X) \<noteq> 0"
  shows "\<not> PTE_IS_TABLE (a OR perm64 perm OR PTE_V)"
proof
  assume "PTE_IS_TABLE (a OR perm64 perm OR PTE_V)"
  then have e: "(a OR perm64 perm OR PTE_V) AND 15 = 1"
    by (simp add: PTE_IS_TABLE_def PTE_V_def PTE_R_def PTE_W_def PTE_X_def)
  have "(a OR perm64 perm OR PTE_V) AND 14 = ((a OR perm64 perm OR PTE_V) AND 15) AND 14"
    by (simp add: and.assoc)
  also have "\<dots> = 0" by (simp add: e)
  finally have z: "(a OR perm64 perm OR PTE_V) AND 14 = 0" .
  have "perm64 perm AND 14 = 0"
  proof (rule bit_word_eqI)
    fix n assume "n < LENGTH(64)"
    have "\<not> bit ((a OR perm64 perm OR PTE_V) AND 14) n" using z by simp
    then show "bit (perm64 perm AND 14) n = bit (0::u64) n"
      by (auto simp: bit_and_iff bit_or_iff)
  qed
  then show False using assms by (simp add: PTE_R_def PTE_W_def PTE_X_def)
qed

lemma read64_zero: "read64 (\<lambda>_. 0) a = 0"
  by (simp add: read64_def)

lemma read64_memset_zero:
  assumes "i \<le> 511"
  shows "read64 (memset m f 0 PGSIZE) (pte_ptr f i) = 0"
proof -
  have "read64 (memset m f 0 PGSIZE) (f + 8 * i) = read64 (\<lambda>_. 0) (f + 8 * i)"
    by (rule read64_frame_cong) (simp_all add: memset_frame_same idx_off assms)
  then show ?thesis by (simp add: pte_ptr_def read64_zero)
qed

lemma read64_memset_other_frame:
  assumes "f mod PGSIZE = 0" "g mod PGSIZE = 0" "f \<noteq> g" "i \<le> 511"
  shows "read64 (memset m g c PGSIZE) (pte_ptr f i) = read64 m (pte_ptr f i)"
  unfolding pte_ptr_def
  by (rule read64_frame_cong) (simp_all add: memset_frame_other idx_off assms)

lemma read64_write64_other_frame:
  assumes "f mod PGSIZE = 0" "g mod PGSIZE = 0" "f \<noteq> g" "i \<le> 511" "j \<le> 511"
  shows "read64 (write64 m (pte_ptr g j) v) (pte_ptr f i) = read64 m (pte_ptr f i)"
  unfolding pte_ptr_def
  by (rule read64_frame_cong) (simp_all add: write64_frame_other idx_off assms)

lemma read64_memmove_other_frame:
  assumes "f mod PGSIZE = 0" "g mod PGSIZE = 0" "f \<noteq> g" "i \<le> 511"
  shows "read64 (memmove m g src PGSIZE) (pte_ptr f i) = read64 m (pte_ptr f i)"
  unfolding pte_ptr_def
  by (rule read64_frame_cong) (simp_all add: memmove_frame_other idx_off assms)

lemma pte_ptr_0: "pte_ptr f 0 = f"
  by (simp add: pte_ptr_def)

lemma pte_ptr_nonzero:
  assumes "f mod PGSIZE = 0" "f \<noteq> 0" "i \<le> 511"
  shows "pte_ptr f i \<noteq> 0"
proof
  assume z: "pte_ptr f i = 0"
  have lt: "8 * i < PGSIZE"
    using idx_off [OF assms(3)] by (simp add: PGSIZE_def word_le_nat_alt word_less_nat_alt)
  have "f OR 8 * i = 0" using z aligned_add_or [OF assms(1) lt] by (simp add: pte_ptr_def)
  then have "f = 0" by (simp add: or_eq_0_iff)
  then show False using assms(2) by simp
qed

section \<open>The week3 page-table walk\<close>

text \<open>The tables a lookup for \<open>va\<close> passes in the current state: the root, then the table
  behind each valid entry on the way down.\<close>

definition week3_walk_tables :: "week3_state \<Rightarrow> u64 \<Rightarrow> u64 \<Rightarrow> u64 list" where
  "week3_walk_tables s pgtbl va =
     (let e2 = read64 (w_mem s) (pte_ptr pgtbl (VA_TO_VPN va 2)) in
      if e2 AND PTE_V = 0 then [pgtbl]
      else
        let t1 = PTE_TO_PA e2;
            e1 = read64 (w_mem s) (pte_ptr t1 (VA_TO_VPN va 1))
        in if e1 AND PTE_V = 0 then [pgtbl, t1] else [pgtbl, t1, PTE_TO_PA e1])"

text \<open>The first two frames of the kernel free list.\<close>

definition week3_free_frames :: "week3_state \<Rightarrow> u64 list" where
  "week3_free_frames s =
     (let f1 = freelist_kernel (kmem s) in
      if f1 = 0 then []
      else let f2 = read64 (w_mem s) f1 in if f2 = 0 then [f1] else [f1, f2])"

text \<open>The three table frames that a creating walk for \<open>va\<close> ends up with: the tables that
  exist already, completed from the head of the kernel free list.\<close>

definition week3_path_frames :: "week3_state \<Rightarrow> u64 \<Rightarrow> u64 \<Rightarrow> u64 list" where
  "week3_path_frames s pgtbl va =
     (let ts = week3_walk_tables s pgtbl va
      in ts @ take (3 - length ts) (week3_free_frames s))"

text \<open>The address space is in shape for mapping \<open>va\<close>: the three frames are there, they are
  different page-aligned frames, and none is the null pointer.\<close>

definition week3_path_ok :: "week3_state \<Rightarrow> u64 \<Rightarrow> u64 \<Rightarrow> bool" where
  "week3_path_ok s pgtbl va =
     (let fs = week3_path_frames s pgtbl va
      in length fs = 3 \<and> distinct fs \<and> list_all (\<lambda>f. f mod PGSIZE = 0 \<and> f \<noteq> 0) fs)"

lemma week3_lookup:
  assumes "week3_walk_tables s pgtbl va = [pgtbl, t1, t0]"
  shows "week3_vm_getpte s pgtbl va alloc = (s, pte_ptr t0 (VA_TO_VPN va 0))"
  using assms
  by (auto simp: week3_walk_tables_def week3_vm_getpte_def week3_getpte_level_def Let_def
      numeral_2_eq_2 split: if_splits)

text \<open>A state whose store agrees with the old one on the root and on the second-level
  table has the same walk.\<close>

lemma week3_walk_tables_stable:
  assumes w: "week3_walk_tables s pgtbl va = [pgtbl, t1, t0]"
    and r: "\<And>x. x < PGSIZE \<Longrightarrow> w_mem s' (pgtbl + x) = w_mem s (pgtbl + x)"
    and t: "\<And>x. x < PGSIZE \<Longrightarrow> w_mem s' (t1 + x) = w_mem s (t1 + x)"
  shows "week3_walk_tables s' pgtbl va = [pgtbl, t1, t0]"
proof -
  have a: "read64 (w_mem s') (pte_ptr pgtbl (VA_TO_VPN va 2))
             = read64 (w_mem s) (pte_ptr pgtbl (VA_TO_VPN va 2))"
    unfolding pte_ptr_def by (rule read64_frame_cong) (simp_all add: r vpn_off)
  have b: "read64 (w_mem s') (pte_ptr t1 (VA_TO_VPN va 1))
             = read64 (w_mem s) (pte_ptr t1 (VA_TO_VPN va 1))"
    unfolding pte_ptr_def by (rule read64_frame_cong) (simp_all add: t vpn_off)
  from w have t1: "t1 = PTE_TO_PA (read64 (w_mem s) (pte_ptr pgtbl (VA_TO_VPN va 2)))"
    by (auto simp: week3_walk_tables_def Let_def split: if_splits)
  show ?thesis using w
    by (auto simp del: One_nat_def simp: week3_walk_tables_def Let_def a b t1 [symmetric]
        split: if_splits)
qed

lemma week3_path_okD:
  assumes "week3_path_ok s pgtbl va" "week3_path_frames s pgtbl va = [a, b, c]"
  shows "a mod PGSIZE = 0" "b mod PGSIZE = 0" "c mod PGSIZE = 0"
    "a \<noteq> b" "a \<noteq> c" "b \<noteq> c" "a \<noteq> 0" "b \<noteq> 0" "c \<noteq> 0"
  using assms by (simp_all add: week3_path_ok_def Let_def)

lemma read64_pte_same: "read64 (write64 m (pte_ptr f i) v) (pte_ptr f i) = v"
  by (rule read64_write64_same)

lemma week3_getpte_create:
  assumes ok: "week3_path_ok s pgtbl va"
    and fr: "week3_path_frames s pgtbl va = [pgtbl, t1, t0]"
  shows "\<exists>s1. week3_vm_getpte s pgtbl va True = (s1, pte_ptr t0 (VA_TO_VPN va 0))
           \<and> week3_walk_tables s1 pgtbl va = [pgtbl, t1, t0]
           \<and> kernel_end s1 = kernel_end s"
proof -
  note d = week3_path_okD [OF ok fr]
  note rw = read64_pte_same read64_write64_other_frame read64_memset_other_frame
    read64_memset_zero table_entry_pa or_valid vpn_le
  let ?e2 = "read64 (w_mem s) (pte_ptr pgtbl (VA_TO_VPN va 2))"
  show ?thesis
  proof (cases "?e2 AND PTE_V = 0")
    case True
    with fr have f: "freelist_kernel (kmem s) = t1" "read64 (w_mem s) t1 = t0"
      by (auto simp: week3_path_frames_def week3_walk_tables_def week3_free_frames_def Let_def
          split: if_splits)
    show ?thesis
      using True f d
      by (simp add: week3_vm_getpte_def week3_getpte_level_def week3_pmem_alloc_def
          week3_walk_tables_def printf_def Let_def numeral_2_eq_2 rw)
  next
    case False
    let ?t1 = "PTE_TO_PA ?e2"
    let ?e1 = "read64 (w_mem s) (pte_ptr ?t1 (VA_TO_VPN va 1))"
    show ?thesis
    proof (cases "?e1 AND PTE_V = 0")
      case True
      with False fr have f: "freelist_kernel (kmem s) = t0" "?t1 = t1"
        by (auto simp: week3_path_frames_def week3_walk_tables_def week3_free_frames_def Let_def
            split: if_splits)
      show ?thesis
        using True False f d
        by (simp add: week3_vm_getpte_def week3_getpte_level_def week3_pmem_alloc_def
            week3_walk_tables_def printf_def Let_def numeral_2_eq_2 rw)
    next
      case e1: False
      with False fr have "week3_walk_tables s pgtbl va = [pgtbl, t1, t0]"
        by (auto simp: week3_path_frames_def week3_walk_tables_def Let_def split: if_splits)
      then show ?thesis by (simp add: week3_lookup)
    qed
  qed
qed


lemma week3_path_frames_root:
  assumes "week3_path_ok s pgtbl va"
  shows "\<exists>t1 t0. week3_path_frames s pgtbl va = [pgtbl, t1, t0]"
proof -
  have "hd (week3_path_frames s pgtbl va) = pgtbl"
    by (simp add: week3_path_frames_def week3_walk_tables_def Let_def)
  moreover have "length (week3_path_frames s pgtbl va) = 3"
    using assms by (simp add: week3_path_ok_def Let_def)
  ultimately show ?thesis
    by (cases "week3_path_frames s pgtbl va" rule: list.exhaust)
       (auto simp: length_Suc_conv numeral_3_eq_3)
qed

lemma write64_frame_other0:
  "f mod PGSIZE = 0 \<Longrightarrow> g mod PGSIZE = 0 \<Longrightarrow> f \<noteq> g \<Longrightarrow> x < PGSIZE \<Longrightarrow>
   write64 m g v (f + x) = m (f + x)"
  using write64_frame_other [of f g x 0 m v] by simp

lemma write64_pte_other:
  "f mod PGSIZE = 0 \<Longrightarrow> g mod PGSIZE = 0 \<Longrightarrow> f \<noteq> g \<Longrightarrow> x < PGSIZE \<Longrightarrow> i \<le> 511 \<Longrightarrow>
   write64 m (pte_ptr g i) v (f + x) = m (f + x)"
  by (simp add: pte_ptr_def write64_frame_other idx_off)

text \<open>Mapping one page: the call returns, the walk for \<open>va\<close> now passes three tables and
  the leaf entry holds the new frame number, the permissions and the valid bit.\<close>

lemma week3_mappages_one:
  assumes al: "va mod PGSIZE = 0" "pa mod PGSIZE = 0"
    and pm: "perm AND NOT 62 = 0"
    and ok: "week3_path_ok s pgtbl va"
    and fr: "week3_path_frames s pgtbl va = [pgtbl, t1, t0]"
  shows "\<exists>s1. week3_vm_mappages s pgtbl va pa PGSIZE perm = Ok s1
           \<and> week3_walk_tables s1 pgtbl va = [pgtbl, t1, t0]
           \<and> read64 (w_mem s1) (pte_ptr t0 (VA_TO_VPN va 0)) = PA_TO_PTE pa OR perm64 perm OR PTE_V
           \<and> kernel_end s1 = kernel_end s"
proof -
  note d = week3_path_okD [OF ok fr]
  from week3_getpte_create [OF ok fr] obtain s' where
    g: "week3_vm_getpte s pgtbl va True = (s', pte_ptr t0 (VA_TO_VPN va 0))"
    and w: "week3_walk_tables s' pgtbl va = [pgtbl, t1, t0]"
    and k: "kernel_end s' = kernel_end s" by blast
  have nz: "pte_ptr t0 (VA_TO_VPN va 0) \<noteq> 0"
    using d by (simp add: pte_ptr_nonzero vpn_le)
  let ?v = "PA_TO_PTE pa OR perm64 perm OR PTE_V"
  let ?s2 = "if read64 (w_mem s') (pte_ptr t0 (VA_TO_VPN va 0)) AND PTE_V \<noteq> 0
             then printf (AlreadyMapped va) s' else s'"
  let ?s3 = "?s2\<lparr>w_mem := write64 (w_mem ?s2) (pte_ptr t0 (VA_TO_VPN va 0)) ?v\<rparr>"
  have m: "week3_vm_mappages s pgtbl va pa PGSIZE perm = Ok ?s3"
    using al pm g nz by (simp add: week3_vm_mappages_def PGSIZE_def Let_def)
  have "week3_walk_tables ?s3 pgtbl va = [pgtbl, t1, t0]"
    using d by (intro week3_walk_tables_stable [OF w]) (simp_all add: printf_def write64_pte_other vpn_le)
  moreover have "read64 (w_mem ?s3) (pte_ptr t0 (VA_TO_VPN va 0)) = ?v"
    by (simp add: read64_pte_same)
  moreover have "kernel_end ?s3 = kernel_end s" using k by (simp add: printf_def)
  ultimately show ?thesis using m by blast
qed

lemma week3_va_in_range:
  assumes "va mod PGSIZE = 0" "va \<le> week3_VA_MAX" "off < PGSIZE"
  shows "\<not> week3_VA_MAX < va + off"
proof -
  have "va < 2 ^ 39"
    using assms(2) by (simp add: week3_VA_MAX_def word_le_nat_alt word_less_nat_alt)
  then have b: "\<And>n. bit va n \<Longrightarrow> n < 39" by (rule small_bit)
  have c: "\<And>n. bit off n \<Longrightarrow> n < 39" using offset_bit [OF assms(3)] by fastforce
  have "va OR off < 2 ^ 39"
    by (rule bits_less) (auto simp: bit_or_iff dest: b c)
  then have "va + off < 2 ^ 39" by (simp add: aligned_add_or [OF assms(1,3)])
  then show ?thesis by (simp add: week3_VA_MAX_def word_le_nat_alt word_less_nat_alt)
qed

lemma week3_walkaddr_leaf:
  assumes w: "week3_walk_tables s pgtbl va = [pgtbl, t1, t0]"
    and t0: "t0 mod PGSIZE = 0" "t0 \<noteq> 0"
    and va: "va mod PGSIZE = 0" "va \<le> week3_VA_MAX" "off < PGSIZE"
  shows "week3_vm_walkaddr s pgtbl (va + off) =
           (s, let e = read64 (w_mem s) (pte_ptr t0 (VA_TO_VPN va 0))
               in if e AND PTE_V = 0 \<or> PTE_IS_TABLE e then 0 else PTE_TO_PA e + off)"
proof -
  have "week3_walk_tables s pgtbl (va + off) = [pgtbl, t1, t0]"
    using w by (auto simp: week3_walk_tables_def Let_def vpn_add_offset [OF va(1,3)]
        split: if_splits)
  then have g: "week3_vm_getpte s pgtbl (va + off) False = (s, pte_ptr t0 (VA_TO_VPN va 0))"
    by (simp add: week3_lookup vpn_add_offset [OF va(1,3)])
  have nz: "pte_ptr t0 (VA_TO_VPN va 0) \<noteq> 0" using t0 by (simp add: pte_ptr_nonzero vpn_le)
  show ?thesis
    using week3_va_in_range [OF va] g nz
    by (simp add: week3_vm_walkaddr_def Let_def page_offset_add [OF va(1,3)])
qed


lemma w_mem_pmem_free:
  "pa \<noteq> 0 \<Longrightarrow>
   \<exists>s'. week3_pmem_free s pa k = Ok s'
      \<and> w_mem s' = write64 (memset (w_mem s) pa 0xAA PGSIZE) pa
           (if k then freelist_kernel (kmem s) else freelist_user (kmem s))"
  by (simp add: week3_pmem_free_def Let_def printf_def)

lemma leaf_valid: "(a OR b OR PTE_V) AND PTE_V \<noteq> 0"
  using or_valid(1) [of "a OR b"] by (simp add: or.assoc)

lemma week3_unmappages_one:
  assumes al: "va mod PGSIZE = 0"
    and w: "week3_walk_tables s pgtbl va = [pgtbl, t1, t0]"
    and d: "pgtbl mod PGSIZE = 0" "t1 mod PGSIZE = 0" "t0 mod PGSIZE = 0"
      "pgtbl \<noteq> t0" "t1 \<noteq> t0" "t0 \<noteq> 0"
    and fz: "freeit \<longrightarrow> PTE_TO_PA (read64 (w_mem s) (pte_ptr t0 (VA_TO_VPN va 0))) \<notin> {0, pgtbl, t1}"
  shows "\<exists>s2. week3_vm_unmappages s pgtbl va PGSIZE freeit = Ok s2
           \<and> week3_walk_tables s2 pgtbl va = [pgtbl, t1, t0]
           \<and> read64 (w_mem s2) (pte_ptr t0 (VA_TO_VPN va 0)) = 0"
proof -
  let ?p = "pte_ptr t0 (VA_TO_VPN va 0)"
  let ?pa = "PTE_TO_PA (read64 (w_mem s) ?p)"
  have g: "week3_vm_getpte s pgtbl va False = (s, ?p)" using w by (rule week3_lookup)
  have nz: "?p \<noteq> 0" using d by (simp add: pte_ptr_nonzero vpn_le)
  have "\<exists>s2. (if freeit
              then week3_pmem_free s ?pa
                     (?pa < PG_ROUND_DOWN (kernel_end s) + KERNEL_PAGES * PGSIZE)
              else Ok s) = Ok s2
          \<and> week3_walk_tables (s2\<lparr>w_mem := write64 (w_mem s2) ?p 0\<rparr>) pgtbl va = [pgtbl, t1, t0]"
  proof (cases freeit)
    case True
    with fz have ne: "?pa \<noteq> 0" "?pa \<noteq> pgtbl" "?pa \<noteq> t1" by simp_all
    from w_mem_pmem_free [OF ne(1)] obtain s2 where
      f: "week3_pmem_free s ?pa (?pa < PG_ROUND_DOWN (kernel_end s) + KERNEL_PAGES * PGSIZE) = Ok s2"
      and m: "w_mem s2 = write64 (memset (w_mem s) ?pa 0xAA PGSIZE) ?pa
                (if ?pa < PG_ROUND_DOWN (kernel_end s) + KERNEL_PAGES * PGSIZE
                 then freelist_kernel (kmem s) else freelist_user (kmem s))"
      by blast
    have "week3_walk_tables (s2\<lparr>w_mem := write64 (w_mem s2) ?p 0\<rparr>) pgtbl va = [pgtbl, t1, t0]"
      using d ne(2,3)
      by (intro week3_walk_tables_stable [OF w])
         (simp_all add: m write64_pte_other vpn_le write64_frame_other0
            memset_frame_other PTE_TO_PA_aligned)
    then show ?thesis using True f by simp
  next
    case False
    have "week3_walk_tables (s\<lparr>w_mem := write64 (w_mem s) ?p 0\<rparr>) pgtbl va = [pgtbl, t1, t0]"
      using d
      by (intro week3_walk_tables_stable [OF w]) (simp_all add: write64_pte_other vpn_le)
    then show ?thesis using False by simp
  qed
  then obtain s2 where
    f: "(if freeit
         then week3_pmem_free s ?pa
                (?pa < PG_ROUND_DOWN (kernel_end s) + KERNEL_PAGES * PGSIZE)
         else Ok s) = Ok s2"
    and w2: "week3_walk_tables (s2\<lparr>w_mem := write64 (w_mem s2) ?p 0\<rparr>) pgtbl va = [pgtbl, t1, t0]"
    by blast
  have u: "week3_vm_unmappages s pgtbl va PGSIZE freeit
             = Ok (s2\<lparr>w_mem := write64 (w_mem s2) ?p 0\<rparr>)"
    using al g nz f by (cases freeit) (simp_all add: week3_vm_unmappages_def PGSIZE_def Let_def)
  moreover have "read64 (w_mem (s2\<lparr>w_mem := write64 (w_mem s2) ?p 0\<rparr>)) ?p = 0"
    by (simp add: read64_pte_same)
  ultimately show ?thesis using w2 by blast
qed

text \<open>
  Claim C1, as amended.  Take a page-aligned \<open>va\<close> not above \<open>VA_MAX\<close>, a page-aligned
  \<open>pa\<close>, and permission bits out of R, W, X, U, G with at least one of R, W, X.  In an
  address space in shape for \<open>va\<close> (the tables on its path and the free frames that
  complete it are different page-aligned frames), \<open>vm_mappages\<close> of that one page
  returns; \<open>vm_walkaddr\<close> then gives \<open>pa\<close> plus the offset for every address of the
  page; and after \<open>vm_unmappages\<close> of the page (without freeing the frame, or freeing a
  frame that is neither \<open>NULL\<close> nor one of the tables) \<open>vm_walkaddr\<close> gives 0.
\<close>

theorem week3_map_walkaddr_unmap:
  assumes "va mod PGSIZE = 0" "pa mod PGSIZE = 0" "va \<le> week3_VA_MAX"
    and "perm AND NOT 62 = 0" "perm64 perm AND (PTE_R OR PTE_W OR PTE_X) \<noteq> 0"
    and "week3_path_ok s pgtbl va"
    and "off < PGSIZE"
    and "freeit \<longrightarrow> pa \<noteq> 0 \<and> pa \<notin> set (week3_path_frames s pgtbl va)"
  shows "\<exists>s1 s2. week3_vm_mappages s pgtbl va pa PGSIZE perm = Ok s1
           \<and> snd (week3_vm_walkaddr s1 pgtbl (va + off)) = pa + off
           \<and> week3_vm_unmappages s1 pgtbl va PGSIZE freeit = Ok s2
           \<and> snd (week3_vm_walkaddr s2 pgtbl (va + off)) = 0"
proof -
  from week3_path_frames_root [OF assms(6)] obtain t1 t0 where
    fr: "week3_path_frames s pgtbl va = [pgtbl, t1, t0]" by blast
  note d = week3_path_okD [OF assms(6) fr]
  let ?p = "pte_ptr t0 (VA_TO_VPN va 0)"
  let ?v = "PA_TO_PTE pa OR perm64 perm OR PTE_V"
  from week3_mappages_one [OF assms(1,2,4,6) fr] obtain s1 where
    m: "week3_vm_mappages s pgtbl va pa PGSIZE perm = Ok s1"
    and w1: "week3_walk_tables s1 pgtbl va = [pgtbl, t1, t0]"
    and e1: "read64 (w_mem s1) ?p = ?v" by blast
  have pa: "PTE_TO_PA ?v = pa" using assms(2,4) by (rule leaf_entry_pa)
  have a: "snd (week3_vm_walkaddr s1 pgtbl (va + off)) = pa + off"
    using leaf_not_table [OF assms(5), of "PA_TO_PTE pa"]
    by (simp add: week3_walkaddr_leaf [OF w1 d(3,9) assms(1,3,7)] e1 pa leaf_valid Let_def)
  have "freeit \<longrightarrow> PTE_TO_PA (read64 (w_mem s1) ?p) \<notin> {0, pgtbl, t1}"
    using assms(8) by (simp add: e1 pa fr)
  from week3_unmappages_one [OF assms(1) w1 d(1,2,3,5,6,9) this] obtain s2 where
    u: "week3_vm_unmappages s1 pgtbl va PGSIZE freeit = Ok s2"
    and w2: "week3_walk_tables s2 pgtbl va = [pgtbl, t1, t0]"
    and e2: "read64 (w_mem s2) ?p = 0" by blast
  have b: "snd (week3_vm_walkaddr s2 pgtbl (va + off)) = 0"
    by (simp add: week3_walkaddr_leaf [OF w2 d(3,9) assms(1,3,7)] e2)
  from m a u b show ?thesis by blast
qed

theorem week3_map_walkaddr_unmap_witness:
  "week3_path_ok week3_demo 0x80400000 0x1000
   \<and> (\<exists>s1 s2. week3_vm_mappages week3_demo 0x80400000 0x1000 0x80600000 PGSIZE 6 = Ok s1
          \<and> snd (week3_vm_walkaddr s1 0x80400000 (0x1000 + 0x10)) = 0x80600000 + 0x10
          \<and> week3_vm_unmappages s1 0x80400000 0x1000 PGSIZE True = Ok s2
          \<and> snd (week3_vm_walkaddr s2 0x80400000 (0x1000 + 0x10)) = 0)"
proof -
  have h1: "(0x1000::u64) mod PGSIZE = 0" by (simp add: PGSIZE_def)
  have h2: "(0x80600000::u64) mod PGSIZE = 0" by (simp add: PGSIZE_def)
  have h3: "(0x1000::u64) \<le> week3_VA_MAX" by (simp add: week3_VA_MAX_def)
  have h4: "(6::u32) AND NOT 62 = 0" by simp
  have h5: "perm64 6 AND (PTE_R OR PTE_W OR PTE_X) \<noteq> 0" by code_simp
  have h6: "week3_path_ok week3_demo 0x80400000 0x1000" by code_simp
  have h7: "(0x10::u64) < PGSIZE" by (simp add: PGSIZE_def)
  have h8: "True \<longrightarrow> (0x80600000::u64) \<noteq> 0
              \<and> 0x80600000 \<notin> set (week3_path_frames week3_demo 0x80400000 0x1000)"
    by code_simp
  from week3_map_walkaddr_unmap [OF h1 h2 h3 h4 h5 h6 h7 h8] h6 show ?thesis by simp
qed

text \<open>Claim C1 as stated fails inside the address range.  On the machine \<open>week3_demo\<close>,
  \<open>va = 0x1000\<close> mapped to \<open>0x80600000\<close> with the permission \<open>PTE_U\<close> alone is accepted by
  \<open>vm_mappages\<close>, but \<open>vm_walkaddr\<close> takes the entry for a table and returns 0.  And
  \<open>va = 0x1000\<close> mapped to the page-aligned \<open>pa = 0\<close> with R and W cannot be unmapped with
  \<open>freeit\<close>: \<open>pmem_free(NULL)\<close> faults.\<close>

theorem week3_round_trip_counterexample:
  "(0x1000::u64) mod PGSIZE = 0 \<and> (0x1000::u64) + PGSIZE \<le> week3_VA_MAX
   \<and> is_Ok (week3_vm_mappages week3_demo 0x80400000 0x1000 0x80600000 PGSIZE 16)
   \<and> snd (week3_vm_walkaddr
          (the_Ok (week3_vm_mappages week3_demo 0x80400000 0x1000 0x80600000 PGSIZE 16))
          0x80400000 0x1000) = 0
   \<and> is_Ok (week3_vm_mappages week3_demo 0x80400000 0x1000 0 PGSIZE 6)
   \<and> is_Panic (week3_vm_unmappages
          (the_Ok (week3_vm_mappages week3_demo 0x80400000 0x1000 0 PGSIZE 6))
          0x80400000 0x1000 PGSIZE True)"
  by code_simp

section \<open>Remapping a mapped page\<close>

text \<open>
  Claim C4, as amended.  In week3, when the leaf entry of a page is already valid
  (the lookup finds it through three distinct, page-aligned tables), \<open>vm_mappages\<close> of
  that page with a page-aligned \<open>pa\<close> and permission bits among R, W, X, U, G prints the
  conflict, overwrites the entry with frame number, permissions and valid bit, and
  returns; with at least one of R, W, X and \<open>va\<close> not above \<open>VA_MAX\<close>, \<open>vm_walkaddr\<close> then
  gives the new \<open>pa\<close> plus the offset.  (In the system-call lab the same call panics.)
\<close>

theorem week3_remap_overwrites:
  assumes "va mod PGSIZE = 0" "pa mod PGSIZE = 0" "va \<le> week3_VA_MAX"
    and "perm AND NOT 62 = 0" "perm64 perm AND (PTE_R OR PTE_W OR PTE_X) \<noteq> 0"
    and "week3_path_ok s pgtbl va" "length (week3_walk_tables s pgtbl va) = 3"
    and "read64 (w_mem s) (snd (week3_vm_getpte s pgtbl va False)) AND PTE_V \<noteq> 0"
    and "off < PGSIZE"
  shows "\<exists>s1. week3_vm_mappages s pgtbl va pa PGSIZE perm = Ok s1
           \<and> console s1 = console s @ [AlreadyMapped va]
           \<and> read64 (w_mem s1) (snd (week3_vm_getpte s pgtbl va False))
                 = PA_TO_PTE pa OR perm64 perm OR PTE_V
           \<and> snd (week3_vm_walkaddr s1 pgtbl (va + off)) = pa + off"
proof -
  from week3_path_frames_root [OF assms(6)] obtain t1 t0 where
    fr: "week3_path_frames s pgtbl va = [pgtbl, t1, t0]" by blast
  note d = week3_path_okD [OF assms(6) fr]
  have w: "week3_walk_tables s pgtbl va = [pgtbl, t1, t0]"
    using fr assms(7) by (simp add: week3_path_frames_def Let_def)
  let ?p = "pte_ptr t0 (VA_TO_VPN va 0)"
  let ?v = "PA_TO_PTE pa OR perm64 perm OR PTE_V"
  have g: "\<And>alloc. week3_vm_getpte s pgtbl va alloc = (s, ?p)" using w by (rule week3_lookup)
  have nz: "?p \<noteq> 0" using d by (simp add: pte_ptr_nonzero vpn_le)
  have valid: "read64 (w_mem s) ?p AND PTE_V \<noteq> 0" using assms(8) by (simp add: g)
  let ?s1 = "(printf (AlreadyMapped va) s)\<lparr>w_mem := write64 (w_mem s) ?p ?v\<rparr>"
  have m: "week3_vm_mappages s pgtbl va pa PGSIZE perm = Ok ?s1"
    using assms(1,2,4) nz valid
    by (simp add: week3_vm_mappages_def PGSIZE_def Let_def g printf_def)
  have c: "console ?s1 = console s @ [AlreadyMapped va]" by (simp add: printf_def)
  have e: "read64 (w_mem ?s1) ?p = ?v" by (simp add: read64_pte_same)
  have w1: "week3_walk_tables ?s1 pgtbl va = [pgtbl, t1, t0]"
    using d by (intro week3_walk_tables_stable [OF w]) (simp_all add: write64_pte_other vpn_le)
  have pa: "PTE_TO_PA ?v = pa" using assms(2,4) by (rule leaf_entry_pa)
  have a: "snd (week3_vm_walkaddr ?s1 pgtbl (va + off)) = pa + off"
    using leaf_not_table [OF assms(5), of "PA_TO_PTE pa"]
    by (simp add: week3_walkaddr_leaf [OF w1 d(3,9) assms(1,3,9)] read64_pte_same pa leaf_valid Let_def)
  from m c e a show ?thesis by (simp add: g)
qed


theorem week3_remap_overwrites_witness:
  "week3_path_ok week3_mapped 0x80400000 0x1000
   \<and> length (week3_walk_tables week3_mapped 0x80400000 0x1000) = 3
   \<and> read64 (w_mem week3_mapped) (snd (week3_vm_getpte week3_mapped 0x80400000 0x1000 False))
         AND PTE_V \<noteq> 0
   \<and> (\<exists>s1. week3_vm_mappages week3_mapped 0x80400000 0x1000 0x80700000 PGSIZE 2 = Ok s1
          \<and> console s1 = console week3_mapped @ [AlreadyMapped 0x1000]
          \<and> read64 (w_mem s1) (snd (week3_vm_getpte week3_mapped 0x80400000 0x1000 False))
                = PA_TO_PTE 0x80700000 OR perm64 2 OR PTE_V
          \<and> snd (week3_vm_walkaddr s1 0x80400000 (0x1000 + 0x10)) = 0x80700000 + 0x10)"
proof -
  have h1: "(0x1000::u64) mod PGSIZE = 0" by (simp add: PGSIZE_def)
  have h2: "(0x80700000::u64) mod PGSIZE = 0" by (simp add: PGSIZE_def)
  have h3: "(0x1000::u64) \<le> week3_VA_MAX" by (simp add: week3_VA_MAX_def)
  have h4: "(2::u32) AND NOT 62 = 0" by simp
  have h5: "perm64 2 AND (PTE_R OR PTE_W OR PTE_X) \<noteq> 0" by code_simp
  have h6: "week3_path_ok week3_mapped 0x80400000 0x1000" by code_simp
  have h7: "length (week3_walk_tables week3_mapped 0x80400000 0x1000) = 3" by code_simp
  have h8: "read64 (w_mem week3_mapped)
              (snd (week3_vm_getpte week3_mapped 0x80400000 0x1000 False)) AND PTE_V \<noteq> 0"
    by code_simp
  have h9: "(0x10::u64) < PGSIZE" by (simp add: PGSIZE_def)
  from week3_remap_overwrites [OF h1 h2 h3 h4 h5 h6 h7 h8 h9] h6 h7 h8 show ?thesis by simp
qed

theorem sc_remap_panics_counterexample:
  "sc_vm_mappages sc_mapped 0x80404000 0x1000 0x80406000 PGSIZE 0x16
     = Panic ''vm_mappages: virtual address already mapped''"
  by code_simp

section \<open>Addresses out of range\<close>

text \<open>
  Claim C9, as amended.  \<open>vm_getpte\<close> itself has no range check (it indexes the tables
  with the masked fields of any 64-bit address); the check is in its callers.  The
  week3 \<open>vm_walkaddr\<close> returns 0 for every \<open>va\<close> above \<open>VA_MAX\<close>, and \<open>uvm_get_phys_addr\<close>
  of the system-call lab returns 0 for every \<open>va\<close> at or above \<open>TRAMPOLINE\<close>; both do so in
  every state and hand the state back unchanged.
\<close>

theorem callers_reject_out_of_range:
  "(week3_VA_MAX < va \<longrightarrow> week3_vm_walkaddr w pgtbl va = (w, 0))
   \<and> (TRAMPOLINE \<le> va \<longrightarrow> uvm_get_phys_addr s pgtbl va = Ok (s, 0))"
  by (simp add: week3_vm_walkaddr_def uvm_get_phys_addr_def)

theorem callers_reject_out_of_range_witness:
  "week3_VA_MAX < 0x8000000000
   \<and> week3_vm_walkaddr week3_mapped 0x80400000 0x8000000000 = (week3_mapped, 0)
   \<and> TRAMPOLINE \<le> 0x8000000000
   \<and> uvm_get_phys_addr sc_mapped 0x80400000 0x8000000000 = Ok (sc_mapped, 0)"
proof -
  have a: "week3_VA_MAX < 0x8000000000" by (simp add: week3_VA_MAX_def)
  have b: "TRAMPOLINE \<le> 0x8000000000" by (simp add: TRAMPOLINE_def VA_MAX_def PGSIZE_def)
  from callers_reject_out_of_range [where va = "0x8000000000" and w = week3_mapped
      and pgtbl = "0x80400000" and s = sc_mapped] a b
  show ?thesis by simp
qed

theorem sc_vm_getpte_walks_VA_MAX_counterexample:
  "read64 (sc_mem sc_proc) (pte_ptr 0x80404000 256) = 0
   \<and> is_Ok (sc_vm_getpte sc_proc 0x80404000 VA_MAX True)
   \<and> snd (the_Ok (sc_vm_getpte sc_proc 0x80404000 VA_MAX True)) = 0x80401000
   \<and> read64 (sc_mem (fst (the_Ok (sc_vm_getpte sc_proc 0x80404000 VA_MAX True))))
        (pte_ptr 0x80404000 256) = 0x20100001"
  by code_simp

section \<open>Evaluating the small machines\<close>

text \<open>The store functions applied to an address, and the states of the small machines in
  closed form, so that the simplifier can run the code on them.\<close>

lemma memset_apply: "memset m dst c n x = (if x - dst < n then c else m x)"
  by (simp add: memset_def)

lemma write64_apply:
  "write64 m a v x = (if x - a < 8 then ucast (drop_bit (8 * unat (x - a)) v) else m x)"
  by (simp add: write64_def)

lemma memmove_apply: "memmove m dst src n x = (if x - dst < n then m (src + (x - dst)) else m x)"
  by (simp add: memmove_def)

lemmas store_eval = read64_def memset_apply write64_apply memmove_apply PGSIZE_def

lemma sc_proc_eq:
  "sc_proc =
     \<lparr>sc_mem = memset (memset (sc_mem sc_demo) 0x80404000 0 4096) 0x80404000 0 4096,
      kern_region = kern_region sc_demo,
      user_region = \<lparr>rg_begin = 0x80404000, rg_end = 0x80408000, allocable = 3,
                      list_head_next = 0x80405000\<rparr>\<rparr>"
  by (simp add: sc_proc_def sc_pmem_alloc_def target_region_def set_target_region_def Let_def
      sc_demo_def store_eval)

lemma sc_getpte_loop_2:
  "sc_getpte_loop 2 s pgtbl va alloc = sc_getpte_loop (Suc (Suc 0)) s pgtbl va alloc"
  by (simp add: numeral_2_eq_2)

lemmas sc_eval = sc_pmem_alloc_def sc_pmem_free_def target_region_def set_target_region_def
  Let_def sc_vm_mappages_def sc_map_page_def sc_vm_getpte_def sc_getpte_loop_2 pte_ptr_def VA_TO_VPN_def
  VA_SHIFT_def PA_TO_PTE_def PTE_TO_PA_def PTE_V_def PTE_U_def PTE_R_def PTE_W_def PTE_X_def
  PTE_FLAGS_def perm64_def PG_ROUND_DOWN_def VA_MAX_def TRAMPOLINE_def TRAPFRAME_def sc_demo_def
  store_eval

lemma sc_mapped_eq:
  "sc_mapped =
     \<lparr>sc_mem =
        write64 (write64
          (memset (memset
            (write64
              (memset (memset
                (memset (sc_mem sc_proc) 0x80405000 0 4096)
                0x80400000 0 4096) 0x80400000 0 4096)
              0x80404000 0x20100001)
            0x80401000 0 4096) 0x80401000 0 4096)
          0x80400000 0x20100401) 0x80401008 0x20101417,
      kern_region = \<lparr>rg_begin = 0x80400000, rg_end = 0x80404000, allocable = 2,
                      list_head_next = 0x80402000\<rparr>,
      user_region = \<lparr>rg_begin = 0x80404000, rg_end = 0x80408000, allocable = 2,
                      list_head_next = 0x80406000\<rparr>\<rparr>"
  by (simp add: sc_mapped_def sc_proc_eq sc_eval)


lemma sc_trapframe_eq:
  "sc_trapframe =
     \<lparr>sc_mem =
        write64 (write64
          (memset (memset
            (write64
              (memset (memset
                (memset (memset (sc_mem sc_mapped) 0x80406000 0 4096) 0x80406000 0x77 4096)
                0x80402000 0 4096) 0x80402000 0 4096)
              0x804047F8 0x20100801)
            0x80403000 0 4096) 0x80403000 0 4096)
          0x80402FF8 0x20100C01) 0x80403FF0 0x20101807,
      kern_region = \<lparr>rg_begin = 0x80400000, rg_end = 0x80404000, allocable = 0,
                      list_head_next = 0\<rparr>,
      user_region = \<lparr>rg_begin = 0x80404000, rg_end = 0x80408000, allocable = 1,
                      list_head_next = 0x80407000\<rparr>\<rparr>"
  by (simp add: sc_trapframe_def sc_mapped_eq sc_proc_eq sc_eval)

section \<open>Copies between kernel and user space\<close>

lemma sc_vm_getpte_lookup:
  "\<exists>pte. sc_vm_getpte s pgtbl va False = Ok (s, pte)"
proof -
  have "\<exists>r. sc_getpte_loop n s pgtbl va False = Ok (s, r)" for n
    by (induction n arbitrary: pgtbl) (auto simp: Let_def)
  then obtain r where "sc_getpte_loop 2 s pgtbl va False = Ok (s, r)" by blast
  then show ?thesis by (cases r) (simp_all add: sc_vm_getpte_def)
qed

text \<open>What the translation helper of the copy routines returns: 0 unless the table is
  not null, the address is below \<open>TRAMPOLINE\<close>, and the leaf entry is found, valid and
  has the user bit; then the frame address plus the offset in the page.  It never
  panics and never changes the state.\<close>

lemma uvm_get_phys_addr_user_only:
  "\<exists>pte. sc_vm_getpte s pgtbl va False = Ok (s, pte)
     \<and> uvm_get_phys_addr s pgtbl va =
         Ok (s, if pgtbl \<noteq> 0 \<and> va < TRAMPOLINE \<and> pte \<noteq> 0
                   \<and> read64 (sc_mem s) pte AND PTE_V \<noteq> 0
                   \<and> read64 (sc_mem s) pte AND PTE_U \<noteq> 0
                then PTE_TO_PA (read64 (sc_mem s) pte) + va mod PGSIZE else 0)"
proof -
  from sc_vm_getpte_lookup obtain pte where "sc_vm_getpte s pgtbl va False = Ok (s, pte)"
    by blast
  then show ?thesis by (auto simp: uvm_get_phys_addr_def Let_def not_le)
qed

text \<open>
  Claim C8, as amended.  \<open>uvm_copyin\<close>, \<open>uvm_copyout\<close> and \<open>uvm_copyin_str\<close> return nothing
  and have no failure report.  Whenever an iteration of their loop finds that the
  current user address does not translate (page unmapped, invalid or without the user
  bit), the operation panics through \<open>assert\<close>; in particular a call with a non-zero
  length, a non-null table and kernel pointer and a user address below \<open>TRAMPOLINE\<close>
  whose first page does not translate panics.
\<close>

theorem uvm_copy_untranslatable_panics:
  assumes "uvm_get_phys_addr s pgtbl uva = Ok (s, 0)" "remaining \<noteq> 0"
  shows "uvm_copyin_loop s pgtbl remaining kva uva
           = Panic ''uvm_copyin: invalid user virtual address''
       \<and> uvm_copyout_loop s pgtbl remaining uva kva
           = Panic ''uvm_copyout: invalid user virtual address''
       \<and> uvm_copyin_str_loop s pgtbl remaining kva uva False
           = Panic ''uvm_copyin_str: invalid user virtual address''
       \<and> (len \<noteq> 0 \<and> pgtbl \<noteq> 0 \<and> kva \<noteq> 0 \<and> uva < TRAMPOLINE \<longrightarrow>
            uvm_copyin s pgtbl kva uva len = Panic ''uvm_copyin: invalid user virtual address''
          \<and> uvm_copyout s pgtbl uva kva len = Panic ''uvm_copyout: invalid user virtual address''
          \<and> uvm_copyin_str s pgtbl kva uva len
               = Panic ''uvm_copyin_str: invalid user virtual address'')"
proof -
  have nz: "ucast len \<noteq> (0::u64)" if "len \<noteq> 0"
  proof
    assume z: "ucast len = (0::u64)"
    have "len = 0"
    proof (rule bit_word_eqI)
      fix n assume n: "n < LENGTH(32)"
      have "bit (ucast len :: u64) n = bit len n" using n by (simp add: bit_ucast_iff)
      then show "bit len n = bit (0::u32) n" using z by simp
    qed
    then show False using that by simp
  qed
  have a: "uvm_copyin_loop s pgtbl r kva uva
             = Panic ''uvm_copyin: invalid user virtual address''" if "r \<noteq> 0" for r
    using that assms(1) by (subst uvm_copyin_loop.simps) simp
  have b: "uvm_copyout_loop s pgtbl r uva kva
             = Panic ''uvm_copyout: invalid user virtual address''" if "r \<noteq> 0" for r
    using that assms(1) by (subst uvm_copyout_loop.simps) simp
  have c: "uvm_copyin_str_loop s pgtbl r kva uva False
             = Panic ''uvm_copyin_str: invalid user virtual address''" if "r \<noteq> 0" for r
    using that assms(1) by (subst uvm_copyin_str_loop.simps) simp
  have top: "uvm_copyin s pgtbl kva uva len = Panic ''uvm_copyin: invalid user virtual address''
      \<and> uvm_copyout s pgtbl uva kva len = Panic ''uvm_copyout: invalid user virtual address''
      \<and> uvm_copyin_str s pgtbl kva uva len
           = Panic ''uvm_copyin_str: invalid user virtual address''"
    if h: "len \<noteq> 0" "pgtbl \<noteq> 0" "kva \<noteq> 0" "uva < TRAMPOLINE"
  proof -
    have r: "\<not> TRAMPOLINE \<le> uva" using h(4) by (simp add: not_le)
    show ?thesis
      unfolding uvm_copyin_def uvm_copyout_def uvm_copyin_str_def
      by (simp only: h r a [OF nz [OF h(1)]] b [OF nz [OF h(1)]] c [OF nz [OF h(1)]]
          if_False simp_thms result.case)
  qed
  from a [OF assms(2)] b [OF assms(2)] c [OF assms(2)] top show ?thesis by blast
qed


lemmas sc_copy_eval = uvm_get_phys_addr_def uvm_copyin_def uvm_copyout_def uvm_copyin_str_def
  copy_len_of_def

lemma uvm_get_phys_addr_state:
  "uvm_get_phys_addr s pgtbl va = Ok (s, snd (the_Ok (uvm_get_phys_addr s pgtbl va)))"
  using uvm_get_phys_addr_user_only [of s pgtbl va] by auto

theorem uvm_copy_untranslatable_panics_witness:
  "uvm_get_phys_addr sc_mapped 0x80404000 0x5000 = Ok (sc_mapped, 0)
   \<and> uvm_copyin_loop sc_mapped 0x80404000 4 0x80300000 0x5000
       = Panic ''uvm_copyin: invalid user virtual address''
   \<and> uvm_copyout_loop sc_mapped 0x80404000 4 0x5000 0x80300000
       = Panic ''uvm_copyout: invalid user virtual address''
   \<and> uvm_copyin_str_loop sc_mapped 0x80404000 4 0x80300000 0x5000 False
       = Panic ''uvm_copyin_str: invalid user virtual address''
   \<and> uvm_copyin sc_mapped 0x80404000 0x80300000 0x5000 4
       = Panic ''uvm_copyin: invalid user virtual address''
   \<and> uvm_copyout sc_mapped 0x80404000 0x5000 0x80300000 4
       = Panic ''uvm_copyout: invalid user virtual address''
   \<and> uvm_copyin_str sc_mapped 0x80404000 0x80300000 0x5000 4
       = Panic ''uvm_copyin_str: invalid user virtual address''"
proof -
  have "snd (the_Ok (uvm_get_phys_addr sc_mapped 0x80404000 0x5000)) = 0"
    by (simp add: sc_mapped_eq sc_proc_eq sc_eval sc_copy_eval)
  then have h1: "uvm_get_phys_addr sc_mapped 0x80404000 0x5000 = Ok (sc_mapped, 0)"
    using uvm_get_phys_addr_state [of sc_mapped "0x80404000" "0x5000"] by simp
  have h2: "(4::u64) \<noteq> 0" by simp
  have h3: "(0x5000::u64) < TRAMPOLINE" by (simp add: TRAMPOLINE_def VA_MAX_def PGSIZE_def)
  from uvm_copy_untranslatable_panics [OF h1 h2, of "0x80300000" 4] h1 h3
  show ?thesis by simp
qed

theorem uvm_copyin_unmapped_counterexample:
  "uvm_copyin sc_mapped 0x80404000 0x80300000 0x5000 4
     = Panic ''uvm_copyin: invalid user virtual address''"
  by (simp add: sc_mapped_eq sc_proc_eq sc_eval sc_copy_eval)

text \<open>
  Claim C10 at a failing input.  The process has a user page at \<open>va = 0x1000\<close> in the frame
  \<open>0x80405000\<close> (all zero) and its trap frame, mapped without the user bit, in the next
  frame \<open>0x80406000\<close> (bytes \<open>0x77\<close>).  The translation helper rejects the trap-frame
  address and gives \<open>0x80405800\<close> for \<open>va = 0x1800\<close>.  But the copy loops add the page
  offset a second time: \<open>uvm_copyin\<close> of eight bytes from \<open>0x1800\<close> hands the kernel the
  bytes of the trap frame, and \<open>uvm_copyout\<close> to \<open>0x1800\<close> overwrites the trap frame.
\<close>

theorem uvm_copy_double_offset:
  "snd (the_Ok (uvm_get_phys_addr sc_trapframe 0x80404000 TRAPFRAME)) = 0
   \<and> PTE_TO_PA (read64 (sc_mem sc_trapframe)
         (snd (the_Ok (sc_vm_getpte sc_trapframe 0x80404000 TRAPFRAME False)))) = 0x80406000
   \<and> snd (the_Ok (uvm_get_phys_addr sc_trapframe 0x80404000 0x1800)) = 0x80405800
   \<and> read64 (sc_mem sc_trapframe) 0x80405800 = 0
   \<and> read64 (sc_mem sc_trapframe) 0x80406000 = 0x7777777777777777
   \<and> read64 (sc_mem (the_Ok (uvm_copyin sc_trapframe 0x80404000 0x80300000 0x1800 8)))
         0x80300000 = 0x7777777777777777
   \<and> read64 (sc_mem (the_Ok (uvm_copyout sc_trapframe 0x80404000 0x1800 0x80300000 8)))
         0x80406000 = 0x5555555555555555"
  by (simp add: sc_trapframe_eq sc_mapped_eq sc_proc_eq sc_eval sc_copy_eval)

section \<open>Frame accounting\<close>

text \<open>The allocator of the file-system lab (whu-oslab-lab6/kernel/mem/pmem.c).  Its
  \<open>mem_control_zone_t\<close> has the fields of \<open>alloc_region_t\<close> under other names
  (\<open>zone_start\<close>, \<open>zone_end\<close>, \<open>free_page_count\<close>, \<open>free_list.next_page\<close>), so the record
  \<open>alloc_region\<close> stands for it.  \<open>pmem_alloc\<close> returns \<open>NULL\<close> on an empty list;
  \<open>pmem_free\<close> fills the frame with the byte 1.\<close>

definition lab7_pmem_alloc :: "sc_state \<Rightarrow> bool \<Rightarrow> sc_state \<times> u64" where
  "lab7_pmem_alloc s in_kernel =
     (let z = target_region s in_kernel;
          alloc_page_node = list_head_next z
      in if alloc_page_node \<noteq> 0
         then
           let z' = z\<lparr>list_head_next := read64 (sc_mem s) alloc_page_node,
                      allocable := allocable z - 1\<rparr>;
               s' = set_target_region in_kernel z' s
           in (s'\<lparr>sc_mem := memset (sc_mem s') alloc_page_node 0 PGSIZE\<rparr>, alloc_page_node)
         else (s, alloc_page_node))"

definition lab7_pmem_free :: "sc_state \<Rightarrow> u64 \<Rightarrow> bool \<Rightarrow> sc_state result" where
  "lab7_pmem_free s page in_kernel =
     (let z = target_region s in_kernel in
      if page mod PGSIZE \<noteq> 0
      then Panic ''pmem_free: invalid page address, not aligned to 4KB boundary''
      else if page < rg_begin z \<or> page \<ge> rg_end z
      then Panic ''pmem_free: invalid page address, out of target zone bounds''
      else
        let m1 = memset (sc_mem s) page 1 PGSIZE;
            m2 = write64 m1 page (list_head_next z);
            z' = z\<lparr>list_head_next := page, allocable := allocable z + 1\<rparr>
        in Ok ((set_target_region in_kernel z' s)\<lparr>sc_mem := m2\<rparr>))"

text \<open>The free list that starts at \<open>h\<close> in the store \<open>m\<close> consists of the frames \<open>xs\<close>, in
  this order.\<close>

fun is_free_list :: "memory \<Rightarrow> u64 \<Rightarrow> u64 list \<Rightarrow> bool" where
  "is_free_list m h [] = (h = 0)"
| "is_free_list m h (x # xs) = (h = x \<and> x \<noteq> 0 \<and> is_free_list m (read64 m x) xs)"

text \<open>A region in good order: its free list holds the distinct, page-aligned frames
  \<open>xs\<close> of the region, the counter is their number, and address 0 is not in the
  region.\<close>

definition region_ok :: "memory \<Rightarrow> alloc_region \<Rightarrow> u64 list \<Rightarrow> bool" where
  "region_ok m r xs =
     (is_free_list m (list_head_next r) xs \<and> distinct xs
      \<and> list_all (\<lambda>x. x mod PGSIZE = 0 \<and> rg_begin r \<le> x \<and> x < rg_end r) xs
      \<and> unat (allocable r) = length xs \<and> rg_begin r \<noteq> 0)"

text \<open>The configurations a client reaches from \<open>(s0, {})\<close> by calls of \<open>pmem_alloc\<close> and
  \<open>pmem_free\<close> on one region: the state, and the set of frames it holds (returned by
  \<open>pmem_alloc\<close> and not freed since).  The client frees only frames it holds.\<close>

inductive sc_reach :: "bool \<Rightarrow> sc_state \<Rightarrow> sc_state \<times> u64 set \<Rightarrow> bool"
  for in_kernel :: bool and s0 :: sc_state where
  start: "sc_reach in_kernel s0 (s0, {})"
| alloc: "sc_reach in_kernel s0 (s, A) \<Longrightarrow> sc_pmem_alloc s in_kernel = Ok (s', p)
          \<Longrightarrow> sc_reach in_kernel s0 (s', insert p A)"
| free: "sc_reach in_kernel s0 (s, A) \<Longrightarrow> p \<in> A \<Longrightarrow> sc_pmem_free s p in_kernel = Ok s'
          \<Longrightarrow> sc_reach in_kernel s0 (s', A - {p})"

inductive lab7_reach :: "bool \<Rightarrow> sc_state \<Rightarrow> sc_state \<times> u64 set \<Rightarrow> bool"
  for in_kernel :: bool and s0 :: sc_state where
  start: "lab7_reach in_kernel s0 (s0, {})"
| alloc: "lab7_reach in_kernel s0 (s, A) \<Longrightarrow> lab7_pmem_alloc s in_kernel = (s', p) \<Longrightarrow> p \<noteq> 0
          \<Longrightarrow> lab7_reach in_kernel s0 (s', insert p A)"
| free: "lab7_reach in_kernel s0 (s, A) \<Longrightarrow> p \<in> A \<Longrightarrow> lab7_pmem_free s p in_kernel = Ok s'
          \<Longrightarrow> lab7_reach in_kernel s0 (s', A - {p})"

lemma is_free_list_cong:
  assumes "is_free_list m h xs" "\<And>x. x \<in> set xs \<Longrightarrow> read64 m' x = read64 m x"
  shows "is_free_list m' h xs"
  using assms by (induction xs arbitrary: h) auto

lemma read64_frame_base_cong:
  assumes "\<And>y. y < PGSIZE \<Longrightarrow> m' (f + y) = m (f + y)"
  shows "read64 m' f = read64 m f"
  using read64_frame_cong [of m' f m 0] assms by simp

text \<open>Taking the head off the list and clearing it.\<close>

lemma region_ok_alloc:
  assumes "region_ok m r (x # xs)"
  shows "region_ok (memset m x 0 PGSIZE)
           (r\<lparr>list_head_next := read64 m x, allocable := allocable r - 1\<rparr>) xs"
proof -
  from assms have l: "is_free_list m (read64 m x) xs" and d: "x \<notin> set xs" "distinct xs"
    and a: "x mod PGSIZE = 0" "list_all (\<lambda>x. x mod PGSIZE = 0 \<and> rg_begin r \<le> x \<and> x < rg_end r) xs"
    and c: "unat (allocable r) = Suc (length xs)" and b: "rg_begin r \<noteq> 0"
    by (simp_all add: region_ok_def)
  have "read64 (memset m x 0 PGSIZE) y = read64 m y" if "y \<in> set xs" for y
  proof (rule read64_frame_base_cong)
    fix z assume "z < PGSIZE"
    moreover have "y mod PGSIZE = 0" "y \<noteq> x" using that a(2) d(1) by (auto simp: list_all_iff)
    ultimately show "memset m x 0 PGSIZE (y + z) = m (y + z)"
      using a(1) by (simp add: memset_frame_other)
  qed
  then have "is_free_list (memset m x 0 PGSIZE) (read64 m x) xs"
    using l by (intro is_free_list_cong [OF l]) simp
  moreover have "unat (allocable r - 1) = length xs"
    using c by (simp add: unat_minus_one unat_eq_0 [symmetric] del: unat_eq_0)
  ultimately show ?thesis using d a b by (simp add: region_ok_def)
qed


text \<open>Putting a frame that is not on the list back at its head.\<close>

lemma region_ok_free:
  assumes ok: "region_ok m r xs"
    and p: "p \<notin> set xs" "p mod PGSIZE = 0" "rg_begin r \<le> p" "p < rg_end r"
    and n: "Suc (length xs) < 2 ^ 32"
  shows "region_ok (write64 (memset m p c PGSIZE) p (list_head_next r))
           (r\<lparr>list_head_next := p, allocable := allocable r + 1\<rparr>) (p # xs)"
proof -
  let ?m' = "write64 (memset m p c PGSIZE) p (list_head_next r)"
  from ok have l: "is_free_list m (list_head_next r) xs" and d: "distinct xs"
    and a: "list_all (\<lambda>x. x mod PGSIZE = 0 \<and> rg_begin r \<le> x \<and> x < rg_end r) xs"
    and c: "unat (allocable r) = length xs" and b: "rg_begin r \<noteq> 0"
    by (simp_all add: region_ok_def)
  have pz: "p \<noteq> 0" using b p(3) by auto
  have "read64 ?m' y = read64 m y" if "y \<in> set xs" for y
  proof (rule read64_frame_base_cong)
    fix z assume "z < PGSIZE"
    moreover have "y mod PGSIZE = 0" "y \<noteq> p" using that a p(1) by (auto simp: list_all_iff)
    ultimately show "?m' (y + z) = m (y + z)"
      using p(2) by (simp add: write64_frame_other0 memset_frame_other)
  qed
  then have "is_free_list ?m' (list_head_next r) xs"
    by (intro is_free_list_cong [OF l]) simp
  moreover have "read64 ?m' p = list_head_next r" by (rule read64_write64_same)
  moreover have "unat (allocable r + 1) = Suc (length xs)"
  proof -
    have "unat (allocable r) + unat (1::u32) < 2 ^ LENGTH(32)" using c n by simp
    then have "unat (allocable r + 1) = unat (allocable r) + unat (1::u32)"
      by (simp only: unat_add_lem)
    then show ?thesis using c by simp
  qed
  ultimately show ?thesis using d a b p pz by (simp add: region_ok_def)
qed

lemma target_region_updated [simp]:
  "target_region ((set_target_region k r s)\<lparr>sc_mem := m\<rparr>) k = r"
  by (simp add: target_region_def set_target_region_def)

lemma sc_mem_set_target_region [simp]: "sc_mem (set_target_region k r s) = sc_mem s"
  by (simp add: set_target_region_def)

text \<open>The invariant of a reachable configuration: the region is in good order, the
  client holds none of the free frames, and free and held frames add up to \<open>N\<close>.\<close>

definition accounted :: "bool \<Rightarrow> nat \<Rightarrow> sc_state \<times> u64 set \<Rightarrow> bool" where
  "accounted k N c =
     (case c of (s, A) \<Rightarrow>
        \<exists>xs. region_ok (sc_mem s) (target_region s k) xs \<and> set xs \<inter> A = {} \<and> finite A
             \<and> length xs + card A = N)"

lemma accounted_alloc:
  assumes "accounted k N (s, A)"
    and "list_head_next (target_region s k) \<noteq> 0"
  shows "list_head_next (target_region s k) \<notin> A
       \<and> accounted k N
           ((set_target_region k
               ((target_region s k)\<lparr>list_head_next :=
                    read64 (sc_mem s) (list_head_next (target_region s k)),
                  allocable := allocable (target_region s k) - 1\<rparr>) s)
              \<lparr>sc_mem := memset (sc_mem s) (list_head_next (target_region s k)) 0 PGSIZE\<rparr>,
            insert (list_head_next (target_region s k)) A)"
proof -
  let ?r = "target_region s k"
  from assms(1) obtain xs where ok: "region_ok (sc_mem s) ?r xs" and dj: "set xs \<inter> A = {}"
    and f: "finite A" and n: "length xs + card A = N"
    by (auto simp: accounted_def)
  from ok assms(2) obtain xs' where xs: "xs = list_head_next ?r # xs'"
    by (cases xs) (auto simp: region_ok_def)
  have d: "list_head_next ?r \<notin> set xs'" using ok xs by (simp add: region_ok_def)
  have na: "list_head_next ?r \<notin> A" using dj xs by auto
  have "region_ok (memset (sc_mem s) (list_head_next ?r) 0 PGSIZE)
          (?r\<lparr>list_head_next := read64 (sc_mem s) (list_head_next ?r),
               allocable := allocable ?r - 1\<rparr>) xs'"
    using ok unfolding xs by (rule region_ok_alloc)
  moreover have "set xs' \<inter> insert (list_head_next ?r) A = {}" using dj d xs by auto
  moreover have "length xs' + card (insert (list_head_next ?r) A) = N"
    using n f na xs by simp
  ultimately show ?thesis using na f by (auto simp: accounted_def)
qed

lemma accounted_free:
  assumes "accounted k N (s, A)" "p \<in> A" "N < 2 ^ 32"
    and "p mod PGSIZE = 0" "rg_begin (target_region s k) \<le> p" "p < rg_end (target_region s k)"
  shows "accounted k N
           ((set_target_region k
               ((target_region s k)\<lparr>list_head_next := p,
                  allocable := allocable (target_region s k) + 1\<rparr>) s)
              \<lparr>sc_mem := write64 (memset (sc_mem s) p c PGSIZE) p
                           (list_head_next (target_region s k))\<rparr>,
            A - {p})"
proof -
  let ?r = "target_region s k"
  from assms(1) obtain xs where ok: "region_ok (sc_mem s) ?r xs" and dj: "set xs \<inter> A = {}"
    and f: "finite A" and n: "length xs + card A = N"
    by (auto simp: accounted_def)
  have px: "p \<notin> set xs" using dj assms(2) by auto
  have "0 < card A" using f assms(2) by (auto simp: card_gt_0_iff)
  then have "Suc (length xs) < 2 ^ 32" using n assms(3) by simp
  from region_ok_free [OF ok px assms(4,5,6) this]
  have "region_ok (write64 (memset (sc_mem s) p c PGSIZE) p (list_head_next ?r))
          (?r\<lparr>list_head_next := p, allocable := allocable ?r + 1\<rparr>) (p # xs)" .
  moreover have "set (p # xs) \<inter> (A - {p}) = {}" using dj by auto
  moreover have "length (p # xs) + card (A - {p}) = N"
    using n f assms(2) \<open>0 < card A\<close> by (simp add: card_Diff_singleton)
  ultimately show ?thesis using f by (auto simp: accounted_def simp del: list.set)
qed

lemma sc_reach_accounted:
  assumes "accounted k N (s0, {})" "N < 2 ^ 32" "sc_reach k s0 c"
  shows "accounted k N c"
  using assms(3)
proof (induction rule: sc_reach.induct)
  case start
  show ?case by (rule assms(1))
next
  case (alloc s A s' p)
  then show ?case
    using accounted_alloc [of k N s A]
    by (auto simp: sc_pmem_alloc_def Let_def split: if_splits)
next
  case (free s A p s')
  then show ?case
    using accounted_free [of k N s A p 0, OF _ _ assms(2)]
    by (auto simp: sc_pmem_free_def Let_def not_less split: if_splits)
qed

lemma lab7_reach_accounted:
  assumes "accounted k N (s0, {})" "N < 2 ^ 32" "lab7_reach k s0 c"
  shows "accounted k N c"
  using assms(3)
proof (induction rule: lab7_reach.induct)
  case start
  show ?case by (rule assms(1))
next
  case (alloc s A s' p)
  then show ?case
    using accounted_alloc [of k N s A]
    by (auto simp: lab7_pmem_alloc_def Let_def split: if_splits)
next
  case (free s A p s')
  then show ?case
    using accounted_free [of k N s A p 1, OF _ _ assms(2)]
    by (auto simp: lab7_pmem_free_def Let_def not_less split: if_splits)
qed


text \<open>The machine \<open>sc_demo\<close> after one allocation from the kernel region, and after the
  frame obtained has then been freed twice.\<close>

definition sc_one_alloc :: sc_state where
  "sc_one_alloc = fst (the_Ok (sc_pmem_alloc sc_demo True))"

definition sc_double_free :: sc_state where
  "sc_double_free =
     the_Ok (sc_pmem_free (the_Ok (sc_pmem_free sc_one_alloc 0x80400000 True)) 0x80400000 True)"

text \<open>Claim C2, as amended.  Take a region in good order whose free list holds the
  frames \<open>xs0\<close>, and a client that frees only frames it holds.  In every configuration
  it reaches, with the allocator of the system-call lab or with the one of the
  file-system lab, the free counter of the region plus the number of frames held is
  the number of frames the list started with, and a successful \<open>pmem_alloc\<close> returns a
  frame the client does not hold.\<close>

theorem pmem_frame_accounting:
  assumes "region_ok (sc_mem s0) (target_region s0 in_kernel) xs0"
  shows "(sc_reach in_kernel s0 (s, A) \<longrightarrow>
            unat (allocable (target_region s in_kernel)) + card A = length xs0
            \<and> (\<forall>s' p. sc_pmem_alloc s in_kernel = Ok (s', p) \<longrightarrow> p \<notin> A))
       \<and> (lab7_reach in_kernel s0 (s, A) \<longrightarrow>
            unat (allocable (target_region s in_kernel)) + card A = length xs0
            \<and> (\<forall>s' p. lab7_pmem_alloc s in_kernel = (s', p) \<and> p \<noteq> 0 \<longrightarrow> p \<notin> A))"
proof -
  have n: "length xs0 < 2 ^ 32"
  proof -
    have "unat (allocable (target_region s0 in_kernel)) = length xs0"
      using assms by (simp add: region_ok_def)
    moreover have "unat (allocable (target_region s0 in_kernel)) < 2 ^ LENGTH(32)"
      by (rule unsigned_less)
    ultimately show ?thesis by simp
  qed
  have a0: "accounted in_kernel (length xs0) (s0, {})"
    using assms by (auto simp: accounted_def)
  have fin: "unat (allocable (target_region s in_kernel)) + card A = length xs0
       \<and> (list_head_next (target_region s in_kernel) \<noteq> 0
            \<longrightarrow> list_head_next (target_region s in_kernel) \<notin> A)"
    if "accounted in_kernel (length xs0) (s, A)"
    using that accounted_alloc [of in_kernel "length xs0" s A]
    by (auto simp: accounted_def region_ok_def)
  have "unat (allocable (target_region s in_kernel)) + card A = length xs0
        \<and> (\<forall>s' p. sc_pmem_alloc s in_kernel = Ok (s', p) \<longrightarrow> p \<notin> A)"
    if "sc_reach in_kernel s0 (s, A)"
    using fin [OF sc_reach_accounted [OF a0 n that]]
    by (auto simp: sc_pmem_alloc_def Let_def split: if_splits)
  moreover have "unat (allocable (target_region s in_kernel)) + card A = length xs0
        \<and> (\<forall>s' p. lab7_pmem_alloc s in_kernel = (s', p) \<and> p \<noteq> 0 \<longrightarrow> p \<notin> A)"
    if "lab7_reach in_kernel s0 (s, A)"
    using fin [OF lab7_reach_accounted [OF a0 n that]]
    by (auto simp: lab7_pmem_alloc_def Let_def split: if_splits)
  ultimately show ?thesis by blast
qed

lemma sc_demo_kernel_list:
  "region_ok (sc_mem sc_demo) (target_region sc_demo True)
     [0x80400000, 0x80401000, 0x80402000, 0x80403000]"
  by (simp add: region_ok_def target_region_def sc_demo_def store_eval)

lemma sc_one_alloc_eq:
  "sc_pmem_alloc sc_demo True = Ok (sc_one_alloc, 0x80400000)"
  "lab7_pmem_alloc sc_demo True = (sc_one_alloc, 0x80400000)"
  by (simp_all add: sc_one_alloc_def lab7_pmem_alloc_def sc_pmem_alloc_def target_region_def
      set_target_region_def Let_def sc_demo_def)

theorem pmem_frame_accounting_witness:
  "region_ok (sc_mem sc_demo) (target_region sc_demo True)
     [0x80400000, 0x80401000, 0x80402000, 0x80403000]
   \<and> sc_reach True sc_demo (sc_one_alloc, {0x80400000})
   \<and> lab7_reach True sc_demo (sc_one_alloc, {0x80400000})
   \<and> unat (allocable (target_region sc_one_alloc True)) + card {0x80400000 :: u64} = 4
   \<and> snd (the_Ok (sc_pmem_alloc sc_one_alloc True)) \<notin> {0x80400000}
   \<and> snd (lab7_pmem_alloc sc_one_alloc True) \<notin> {0x80400000}"
proof -
  have r1: "sc_reach True sc_demo (sc_one_alloc, {0x80400000})"
    using sc_reach.alloc [OF sc_reach.start sc_one_alloc_eq(1)] by simp
  have r2: "lab7_reach True sc_demo (sc_one_alloc, {0x80400000})"
    using lab7_reach.alloc [OF lab7_reach.start sc_one_alloc_eq(2)] by simp
  have a1: "is_Ok (sc_pmem_alloc sc_one_alloc True)"
    by (simp add: sc_one_alloc_def sc_eval)
  have a2: "snd (lab7_pmem_alloc sc_one_alloc True) \<noteq> 0"
    by (simp add: sc_one_alloc_def lab7_pmem_alloc_def sc_eval)
  note acc = pmem_frame_accounting [OF sc_demo_kernel_list, where s = sc_one_alloc
      and A = "{0x80400000}"]
  from acc r1 have "unat (allocable (target_region sc_one_alloc True)) + card {0x80400000 :: u64} = 4"
    by simp
  moreover from acc r1
  have "sc_pmem_alloc sc_one_alloc True
          = Ok (fst (the_Ok (sc_pmem_alloc sc_one_alloc True)),
                snd (the_Ok (sc_pmem_alloc sc_one_alloc True)))
        \<longrightarrow> snd (the_Ok (sc_pmem_alloc sc_one_alloc True)) \<notin> {0x80400000}"
    by blast
  with a1 have "snd (the_Ok (sc_pmem_alloc sc_one_alloc True)) \<notin> {0x80400000}"
    by simp
  moreover from acc r2
  have "lab7_pmem_alloc sc_one_alloc True
          = (fst (lab7_pmem_alloc sc_one_alloc True), snd (lab7_pmem_alloc sc_one_alloc True))
        \<and> snd (lab7_pmem_alloc sc_one_alloc True) \<noteq> 0
        \<longrightarrow> snd (lab7_pmem_alloc sc_one_alloc True) \<notin> {0x80400000}"
    by blast
  with a2 have "snd (lab7_pmem_alloc sc_one_alloc True) \<notin> {0x80400000}"
    by simp
  ultimately show ?thesis
    using r1 r2 sc_demo_kernel_list by simp
qed

text \<open>Claim C2 as stated does not hold for every sequence of calls: \<open>pmem_free\<close> does not
  check that the frame is allocated.  After one allocation from the four-frame kernel
  region of \<open>sc_demo\<close> and two calls of \<open>pmem_free\<close> on the frame obtained, nothing is
  held and the counter is five; the next two allocations return the same frame.\<close>

theorem pmem_double_free_counterexample:
  "is_Ok (sc_pmem_free sc_one_alloc 0x80400000 True)
   \<and> is_Ok (sc_pmem_free (the_Ok (sc_pmem_free sc_one_alloc 0x80400000 True)) 0x80400000 True)
   \<and> allocable (kern_region sc_double_free) = 5
   \<and> snd (the_Ok (sc_pmem_alloc sc_double_free True)) = 0x80400000
   \<and> snd (the_Ok (sc_pmem_alloc (fst (the_Ok (sc_pmem_alloc sc_double_free True))) True))
       = 0x80400000"
  by (simp add: sc_double_free_def sc_one_alloc_def sc_eval)

section \<open>Destroying an address space\<close>

text \<open>The frames an address space owns, read from the store in the order in which
  \<open>destroy_pgtbl\<close> meets them: \<open>owned_tables\<close> are the tables below a table (the frames
  of its valid entries without \<open>R\<close>, \<open>W\<close> or \<open>X\<close>, each after the tables below it), and
  \<open>owned_leaves\<close> are the frames of the leaves with \<open>PTE_U\<close>.  The first argument is the
  level, the second the number of entries of the table still to visit.\<close>

fun owned_tables :: "nat \<Rightarrow> nat \<Rightarrow> memory \<Rightarrow> u64 \<Rightarrow> u64 list" where
  "owned_tables level 0 m pgtbl = []"
| "owned_tables 0 (Suc k) m pgtbl = []"
| "owned_tables (Suc l) (Suc k) m pgtbl =
     (let e = read64 m (pte_ptr pgtbl (of_nat (511 - k)))
      in (if e AND PTE_V = 0 then []
          else if e AND (PTE_R OR PTE_W OR PTE_X) = 0
          then owned_tables l 512 m (PTE_TO_PA e) @ [PTE_TO_PA e]
          else [])
         @ owned_tables (Suc l) k m pgtbl)"

fun owned_leaves :: "nat \<Rightarrow> nat \<Rightarrow> memory \<Rightarrow> u64 \<Rightarrow> u64 list" where
  "owned_leaves level 0 m pgtbl = []"
| "owned_leaves 0 (Suc k) m pgtbl = []"
| "owned_leaves (Suc l) (Suc k) m pgtbl =
     (let e = read64 m (pte_ptr pgtbl (of_nat (511 - k)))
      in (if e AND PTE_V = 0 then []
          else if e AND (PTE_R OR PTE_W OR PTE_X) = 0
          then owned_leaves l 512 m (PTE_TO_PA e)
          else if e AND PTE_U \<noteq> 0 then [PTE_TO_PA e] else [])
         @ owned_leaves (Suc l) k m pgtbl)"

definition in_region :: "alloc_region \<Rightarrow> u64 \<Rightarrow> bool" where
  "in_region r f = (rg_begin r \<le> f \<and> f < rg_end r)"

text \<open>Both regions in good order, with free lists \<open>xk\<close> and \<open>xu\<close>.\<close>

definition heap_ok :: "sc_state \<Rightarrow> u64 list \<Rightarrow> u64 list \<Rightarrow> bool" where
  "heap_ok s xk xu =
     (region_ok (sc_mem s) (kern_region s) xk \<and> region_ok (sc_mem s) (user_region s) xu)"

definition same_bounds :: "sc_state \<Rightarrow> sc_state \<Rightarrow> bool" where
  "same_bounds s s' =
     (rg_begin (kern_region s') = rg_begin (kern_region s)
      \<and> rg_end (kern_region s') = rg_end (kern_region s)
      \<and> rg_begin (user_region s') = rg_begin (user_region s)
      \<and> rg_end (user_region s') = rg_end (user_region s))"

text \<open>Two stores agree on the frame \<open>f\<close>.\<close>

definition frame_eq :: "memory \<Rightarrow> memory \<Rightarrow> u64 \<Rightarrow> bool" where
  "frame_eq m m' f = (\<forall>x. x < PGSIZE \<longrightarrow> m' (f + x) = m (f + x))"

lemma frame_eq_refl [simp]: "frame_eq m m f"
  by (simp add: frame_eq_def)

lemma frame_eq_trans: "frame_eq m m' f \<Longrightarrow> frame_eq m' m'' f \<Longrightarrow> frame_eq m m'' f"
  by (simp add: frame_eq_def)

lemma frame_eq_memset:
  "f mod PGSIZE = 0 \<Longrightarrow> g mod PGSIZE = 0 \<Longrightarrow> f \<noteq> g \<Longrightarrow> frame_eq m (memset m g c PGSIZE) f"
  by (simp add: frame_eq_def memset_frame_other)

lemma frame_eq_write64_pte:
  "f mod PGSIZE = 0 \<Longrightarrow> g mod PGSIZE = 0 \<Longrightarrow> f \<noteq> g \<Longrightarrow> i \<le> 511
   \<Longrightarrow> frame_eq m (write64 m (pte_ptr g i) v) f"
  by (simp add: frame_eq_def write64_pte_other)

lemma frame_eq_write64:
  "f mod PGSIZE = 0 \<Longrightarrow> g mod PGSIZE = 0 \<Longrightarrow> f \<noteq> g \<Longrightarrow> frame_eq m (write64 m g v) f"
  by (simp add: frame_eq_def write64_frame_other0)

lemma read64_entry_cong:
  assumes "frame_eq m m' f" "i \<le> 511"
  shows "read64 m' (pte_ptr f i) = read64 m (pte_ptr f i)"
proof -
  have "8 * i \<le> 4088" using assms(2) by (rule idx_off)
  moreover have "\<And>x. x < PGSIZE \<Longrightarrow> m' (f + x) = m (f + x)"
    using assms(1) by (simp add: frame_eq_def)
  ultimately have "read64 m' (f + 8 * i) = read64 m (f + 8 * i)"
    by (rule read64_frame_cong [rotated])
  then show ?thesis by (simp add: pte_ptr_def)
qed

lemma read64_base_cong:
  assumes "frame_eq m m' f"
  shows "read64 m' f = read64 m f"
  using assms by (auto intro!: read64_frame_base_cong simp: frame_eq_def)

lemma region_ok_frame_eq:
  assumes "region_ok m r xs" "\<And>x. x \<in> set xs \<Longrightarrow> frame_eq m m' x"
  shows "region_ok m' r xs"
proof -
  have "is_free_list m' (list_head_next r) xs"
  proof (rule is_free_list_cong [of m])
    show "is_free_list m (list_head_next r) xs" using assms(1) by (simp add: region_ok_def)
    show "read64 m' x = read64 m x" if "x \<in> set xs" for x
      using assms(2) [OF that] by (rule read64_base_cong)
  qed
  then show ?thesis using assms(1) by (simp add: region_ok_def)
qed

lemma region_ok_aligned: "region_ok m r xs \<Longrightarrow> x \<in> set xs \<Longrightarrow> x mod PGSIZE = 0"
  by (simp add: region_ok_def list_all_iff)

lemma idx_unat: "n \<le> 511 \<Longrightarrow> unat (of_nat n :: u64) = n"
  by (simp add: unat_of_nat)

lemma idx_le: "n \<le> 511 \<Longrightarrow> (of_nat n :: u64) \<le> 511"
  by (simp add: word_le_nat_alt idx_unat)

lemma idx_inj:
  assumes "i \<le> 511" "j \<le> 511" "(of_nat i :: u64) = of_nat j"
  shows "i = j"
proof -
  have "unat (of_nat i :: u64) = unat (of_nat j :: u64)" by (simp only: assms(3))
  then show ?thesis by (simp only: idx_unat [OF assms(1)] idx_unat [OF assms(2)])
qed

text \<open>Writing one entry of a table leaves its other entries as they are.\<close>

lemma write64_entry_byte:
  assumes "(i::u64) \<le> 511" "j \<le> 511" "i \<noteq> j" "b < 8"
  shows "write64 m (t + 8 * i) v (t + 8 * j + b) = m (t + 8 * j + b)"
proof -
  have I: "unat i \<le> 511" and J: "unat j \<le> 511" and B: "unat b < 8"
    using assms by (simp_all add: word_le_nat_alt word_less_nat_alt)
  have ne: "unat i \<noteq> unat j" using assms(3) by (simp add: word_unat_eq_iff)
  have w: "unat (8 * i) = 8 * unat i"
    using I by (subst unat_mult_lem [THEN iffD1]) simp_all
  have u0: "unat (8 * j) = 8 * unat j"
    using J by (subst unat_mult_lem [THEN iffD1]) simp_all
  have u: "unat (8 * j + b) = 8 * unat j + unat b"
    using J B u0 by (subst unat_add_lem [THEN iffD1]) simp_all
  have eq: "t + 8 * j + b - (t + 8 * i) = (8 * j + b) - 8 * i" by simp
  have "\<not> (8 * j + b) - 8 * i < 8"
    using I J B ne by (simp add: word_less_nat_alt unat_sub_if' w u) arith
  then have "\<not> t + 8 * j + b - (t + 8 * i) < 8" unfolding eq .
  then show ?thesis by (simp only: write64_def if_False)
qed

lemma write64_entry_other:
  assumes "(i::u64) \<le> 511" "j \<le> 511" "i \<noteq> j"
  shows "read64 (write64 m (pte_ptr t i) v) (pte_ptr t j) = read64 m (pte_ptr t j)"
  unfolding pte_ptr_def
  by (rule read64_cong) (simp_all add: write64_entry_byte [OF assms])


lemma owned_tables_aligned: "f \<in> set (owned_tables l k m t) \<Longrightarrow> f mod PGSIZE = 0"
  by (induction l k m t rule: owned_tables.induct)
    (auto simp: Let_def PTE_TO_PA_aligned split: if_splits)

lemma owned_leaves_aligned: "f \<in> set (owned_leaves l k m t) \<Longrightarrow> f mod PGSIZE = 0"
  by (induction l k m t rule: owned_leaves.induct)
    (auto simp: Let_def PTE_TO_PA_aligned split: if_splits)

text \<open>The owned frames depend only on the entries still to visit and on the tables
  below them.\<close>

lemma owned_cong:
  assumes "\<And>j. j < k \<Longrightarrow> read64 m' (pte_ptr t (of_nat (511 - j)))
                         = read64 m (pte_ptr t (of_nat (511 - j)))"
    and "\<And>f. f \<in> set (owned_tables l k m t) \<Longrightarrow> frame_eq m m' f"
  shows "owned_tables l k m' t = owned_tables l k m t
       \<and> owned_leaves l k m' t = owned_leaves l k m t"
  using assms
proof (induction l arbitrary: k t)
  case 0
  show ?case by (cases k) simp_all
next
  case (Suc l)
  note outer = Suc.IH
  from Suc.prems show ?case
  proof (induction k)
    case 0
    show ?case by simp
  next
    case (Suc k)
    let ?e = "read64 m (pte_ptr t (of_nat (511 - k)))"
    have e: "read64 m' (pte_ptr t (of_nat (511 - k))) = ?e"
      using Suc.prems(1) [of k] by simp
    have rest: "owned_tables (Suc l) k m' t = owned_tables (Suc l) k m t
              \<and> owned_leaves (Suc l) k m' t = owned_leaves (Suc l) k m t"
    proof (rule Suc.IH)
      show "read64 m' (pte_ptr t (of_nat (511 - j))) = read64 m (pte_ptr t (of_nat (511 - j)))"
        if "j < k" for j using Suc.prems(1) [of j] that by simp
      show "frame_eq m m' f" if "f \<in> set (owned_tables (Suc l) k m t)" for f
        using Suc.prems(2) [of f] that by (simp add: Let_def)
    qed
    have child: "owned_tables l 512 m' (PTE_TO_PA ?e) = owned_tables l 512 m (PTE_TO_PA ?e)
               \<and> owned_leaves l 512 m' (PTE_TO_PA ?e) = owned_leaves l 512 m (PTE_TO_PA ?e)"
      if v: "?e AND PTE_V \<noteq> 0" "?e AND (PTE_R OR PTE_W OR PTE_X) = 0"
    proof (rule outer)
      have c: "frame_eq m m' (PTE_TO_PA ?e)"
        using Suc.prems(2) [of "PTE_TO_PA ?e"] v by (simp add: Let_def)
      show "read64 m' (pte_ptr (PTE_TO_PA ?e) (of_nat (511 - j)))
              = read64 m (pte_ptr (PTE_TO_PA ?e) (of_nat (511 - j)))" for j
        using c by (rule read64_entry_cong) (simp add: idx_le)
      show "frame_eq m m' f" if "f \<in> set (owned_tables l 512 m (PTE_TO_PA ?e))" for f
        using Suc.prems(2) [of f] that v by (simp add: Let_def)
    qed
    show ?case using rest child by (simp add: e Let_def)
  qed
qed

text \<open>The effect of a successful \<open>pmem_free\<close> on the two regions.\<close>

lemma sc_pmem_free_ok:
  assumes ok: "region_ok (sc_mem s) (target_region s k) xs"
    and p: "p \<notin> set xs" "p mod PGSIZE = 0" "in_region (target_region s k) p"
    and n: "Suc (length xs) < 2 ^ 32"
  shows "\<exists>s'. sc_pmem_free s p k = Ok s'
           \<and> region_ok (sc_mem s') (target_region s' k) (p # xs)
           \<and> target_region s' (\<not> k) = target_region s (\<not> k)
           \<and> same_bounds s s'
           \<and> (\<forall>f. f mod PGSIZE = 0 \<longrightarrow> f \<noteq> p \<longrightarrow> frame_eq (sc_mem s) (sc_mem s') f)"
proof -
  let ?r = "target_region s k"
  let ?m = "write64 (memset (sc_mem s) p 0 PGSIZE) p (list_head_next ?r)"
  let ?s = "(set_target_region k (?r\<lparr>list_head_next := p, allocable := allocable ?r + 1\<rparr>) s)
              \<lparr>sc_mem := ?m\<rparr>"
  have b: "rg_begin ?r \<le> p" "p < rg_end ?r" using p(3) by (simp_all add: in_region_def)
  have "sc_pmem_free s p k = Ok ?s"
    using p(2) b by (simp add: sc_pmem_free_def Let_def not_less)
  moreover have "region_ok (sc_mem ?s) (target_region ?s k) (p # xs)"
    using region_ok_free [OF ok p(1,2) b n, of 0] by simp
  moreover have "target_region ?s (\<not> k) = target_region s (\<not> k)"
    by (cases k) (simp_all add: target_region_def set_target_region_def)
  moreover have "same_bounds s ?s"
    by (cases k) (simp_all add: same_bounds_def target_region_def set_target_region_def)
  moreover have "frame_eq (sc_mem s) (sc_mem ?s) f" if "f mod PGSIZE = 0" "f \<noteq> p" for f
  proof -
    have "frame_eq (sc_mem s) (memset (sc_mem s) p 0 PGSIZE) f"
      using that p(2) by (simp add: frame_eq_memset)
    moreover have "frame_eq (memset (sc_mem s) p 0 PGSIZE) ?m f"
      using that p(2) by (simp add: frame_eq_write64)
    ultimately show ?thesis by (simp add: frame_eq_trans)
  qed
  ultimately show ?thesis by blast
qed

lemma heap_ok_frame_eq:
  assumes "heap_ok s xk xu" "kern_region s' = kern_region s" "user_region s' = user_region s"
    and "\<And>x. x \<in> set (xk @ xu) \<Longrightarrow> frame_eq (sc_mem s) (sc_mem s') x"
  shows "heap_ok s' xk xu"
  using assms by (auto simp: heap_ok_def intro: region_ok_frame_eq)

lemma free_kernel_frame:
  assumes ok: "heap_ok s xk xu"
    and p: "p \<notin> set (xk @ xu)" "p mod PGSIZE = 0" "in_region (kern_region s) p"
    and n: "Suc (length xk) < 2 ^ 32"
  shows "\<exists>s'. sc_pmem_free s p True = Ok s' \<and> heap_ok s' (p # xk) xu \<and> same_bounds s s'
           \<and> (\<forall>f. f mod PGSIZE = 0 \<longrightarrow> f \<noteq> p \<longrightarrow> frame_eq (sc_mem s) (sc_mem s') f)"
proof -
  from ok have k: "region_ok (sc_mem s) (target_region s True) xk"
    and u: "region_ok (sc_mem s) (user_region s) xu"
    by (simp_all add: heap_ok_def target_region_def)
  from sc_pmem_free_ok [OF k, of p] p n
  obtain s' where s': "sc_pmem_free s p True = Ok s'"
    "region_ok (sc_mem s') (kern_region s') (p # xk)" "user_region s' = user_region s"
    "same_bounds s s'"
    "\<And>f. f mod PGSIZE = 0 \<Longrightarrow> f \<noteq> p \<Longrightarrow> frame_eq (sc_mem s) (sc_mem s') f"
    by (auto simp: target_region_def)
  have "region_ok (sc_mem s') (user_region s) xu"
    using u
  proof (rule region_ok_frame_eq)
    fix x assume "x \<in> set xu"
    then show "frame_eq (sc_mem s) (sc_mem s') x"
      using s'(5) [of x] region_ok_aligned [OF u, of x] p(1) by auto
  qed
  then show ?thesis using s' by (auto simp: heap_ok_def)
qed

lemma free_user_frame:
  assumes ok: "heap_ok s xk xu"
    and p: "p \<notin> set (xk @ xu)" "p mod PGSIZE = 0" "in_region (user_region s) p"
    and n: "Suc (length xu) < 2 ^ 32"
  shows "\<exists>s'. sc_pmem_free s p False = Ok s' \<and> heap_ok s' xk (p # xu) \<and> same_bounds s s'
           \<and> (\<forall>f. f mod PGSIZE = 0 \<longrightarrow> f \<noteq> p \<longrightarrow> frame_eq (sc_mem s) (sc_mem s') f)"
proof -
  from ok have u: "region_ok (sc_mem s) (target_region s False) xu"
    and k: "region_ok (sc_mem s) (kern_region s) xk"
    by (simp_all add: heap_ok_def target_region_def)
  from sc_pmem_free_ok [OF u, of p] p n
  obtain s' where s': "sc_pmem_free s p False = Ok s'"
    "region_ok (sc_mem s') (user_region s') (p # xu)" "kern_region s' = kern_region s"
    "same_bounds s s'"
    "\<And>f. f mod PGSIZE = 0 \<Longrightarrow> f \<noteq> p \<Longrightarrow> frame_eq (sc_mem s) (sc_mem s') f"
    by (auto simp: target_region_def)
  have "region_ok (sc_mem s') (kern_region s) xk"
    using k
  proof (rule region_ok_frame_eq)
    fix x assume "x \<in> set xk"
    then show "frame_eq (sc_mem s) (sc_mem s') x"
      using s'(5) [of x] region_ok_aligned [OF k, of x] p(1) by auto
  qed
  then show ?thesis using s' by (auto simp: heap_ok_def)
qed


lemma same_bounds_refl [simp]: "same_bounds s s"
  by (simp add: same_bounds_def)

lemma same_bounds_trans: "same_bounds s s' \<Longrightarrow> same_bounds s' s'' \<Longrightarrow> same_bounds s s''"
  by (simp add: same_bounds_def)

lemma same_bounds_mem [simp]: "same_bounds s (s'\<lparr>sc_mem := m\<rparr>) = same_bounds s s'"
  by (simp add: same_bounds_def)

lemma in_region_bounds:
  assumes "same_bounds s s'"
  shows "in_region (kern_region s') = in_region (kern_region s)"
    and "in_region (user_region s') = in_region (user_region s)"
  using assms by (auto simp: same_bounds_def in_region_def fun_eq_iff)

lemma heap_ok_aligned: "heap_ok s xk xu \<Longrightarrow> x \<in> set (xk @ xu) \<Longrightarrow> x mod PGSIZE = 0"
  by (auto simp: heap_ok_def dest: region_ok_aligned)

lemma heap_ok_nonzero: "heap_ok s xk xu \<Longrightarrow> in_region (kern_region s) f \<Longrightarrow> f \<noteq> 0"
  by (auto simp: heap_ok_def region_ok_def in_region_def)

text \<open>The walk of one table.  If the table, the frames owned below its remaining
  entries and the free frames are pairwise distinct, and the owned frames lie in their
  regions, the walk returns, the owned frames are on the free lists in the reverse
  order of the calls, and no other frame has changed.\<close>

lemma destroy_walk_frees:
  assumes "heap_ok s xk xu" "t mod PGSIZE = 0" "k \<le> 512"
    and "distinct (t # owned_tables l k (sc_mem s) t @ owned_leaves l k (sc_mem s) t @ xk @ xu)"
    and "list_all (in_region (kern_region s)) (owned_tables l k (sc_mem s) t)"
    and "list_all (in_region (user_region s)) (owned_leaves l k (sc_mem s) t)"
    and "length xk + length (owned_tables l k (sc_mem s) t) < 2 ^ 32"
    and "length xu + length (owned_leaves l k (sc_mem s) t) < 2 ^ 32"
  shows "\<exists>s'. destroy_walk l k s t = Ok s'
           \<and> heap_ok s' (rev (owned_tables l k (sc_mem s) t) @ xk)
                (rev (owned_leaves l k (sc_mem s) t) @ xu)
           \<and> same_bounds s s'
           \<and> (\<forall>f. f mod PGSIZE = 0
                  \<longrightarrow> f \<notin> set (t # owned_tables l k (sc_mem s) t @ owned_leaves l k (sc_mem s) t)
                  \<longrightarrow> frame_eq (sc_mem s) (sc_mem s') f)"
  using assms
proof (induction l arbitrary: k s t xk xu)
  case 0
  then show ?case by (cases k) simp_all
next
  case (Suc l)
  note outer = Suc.IH
  from Suc.prems show ?case
  proof (induction k arbitrary: s xk xu)
    case 0
    then show ?case by simp
  next
    case (Suc k)
    note inner = Suc.IH
    note pre = Suc.prems
    let ?m = "sc_mem s"
    define i :: u64 where "i = of_nat (511 - k)"
    define e where "e = read64 ?m (pte_ptr t i)"
    define Kr where "Kr = owned_tables (Suc l) k ?m t"
    define Ur where "Ur = owned_leaves (Suc l) k ?m t"
    have i: "i \<le> 511" by (simp add: i_def idx_le)
    have k: "k \<le> 512" using pre(3) by simp
    have other: "of_nat (511 - j) \<noteq> i" if "j < k" for j
      using idx_inj [of "511 - j" "511 - k"] that pre(3) by (auto simp: i_def)
    consider (invalid) "e AND PTE_V = 0"
      | (table) "e AND PTE_V \<noteq> 0" "e AND (PTE_R OR PTE_W OR PTE_X) = 0"
      | (leaf) "e AND PTE_V \<noteq> 0" "e AND (PTE_R OR PTE_W OR PTE_X) \<noteq> 0"
      by blast
    then show ?case
    proof cases
      case invalid
      have K: "owned_tables (Suc l) (Suc k) ?m t = Kr"
        and U: "owned_leaves (Suc l) (Suc k) ?m t = Ur"
        using invalid by (simp_all add: Let_def e_def i_def Kr_def Ur_def)
      have dw: "destroy_walk (Suc l) (Suc k) s t = destroy_walk (Suc l) k s t"
        using invalid by (simp add: Let_def e_def i_def)
      show ?thesis
        unfolding K U dw unfolding Kr_def Ur_def
        using pre(1,2) k pre(4-8) [unfolded K U, unfolded Kr_def Ur_def] by (rule inner)
    next
      case table
      define c where "c = PTE_TO_PA e"
      define Kc where "Kc = owned_tables l 512 ?m c"
      define Uc where "Uc = owned_leaves l 512 ?m c"
      have K: "owned_tables (Suc l) (Suc k) ?m t = (Kc @ [c]) @ Kr"
        and U: "owned_leaves (Suc l) (Suc k) ?m t = Uc @ Ur"
        using table by (simp_all add: Let_def e_def i_def Kr_def Ur_def c_def Kc_def Uc_def)
      note d = pre(4) [unfolded K U]
      note rk = pre(5) [unfolded K]
      note ru = pre(6) [unfolded U]
      note nk = pre(7) [unfolded K]
      note nu = pre(8) [unfolded U]
      have c: "c mod PGSIZE = 0" by (simp add: c_def PTE_TO_PA_aligned)
      have cr: "in_region (kern_region s) c" using rk by simp
      have c0: "c \<noteq> 0" using pre(1) cr by (rule heap_ok_nonzero)
      have "\<exists>s1. destroy_walk l 512 s c = Ok s1
              \<and> heap_ok s1 (rev (owned_tables l 512 ?m c) @ xk) (rev (owned_leaves l 512 ?m c) @ xu)
              \<and> same_bounds s s1
              \<and> (\<forall>f. f mod PGSIZE = 0
                    \<longrightarrow> f \<notin> set (c # owned_tables l 512 ?m c @ owned_leaves l 512 ?m c)
                    \<longrightarrow> frame_eq ?m (sc_mem s1) f)"
      proof (rule outer [OF pre(1) c])
        show "(512::nat) \<le> 512" by simp
        show "distinct (c # owned_tables l 512 ?m c @ owned_leaves l 512 ?m c @ xk @ xu)"
          using d by (auto simp: Kc_def [symmetric] Uc_def [symmetric])
        show "list_all (in_region (kern_region s)) (owned_tables l 512 ?m c)"
          using rk by (simp add: Kc_def)
        show "list_all (in_region (user_region s)) (owned_leaves l 512 ?m c)"
          using ru by (simp add: Uc_def)
        show "length xk + length (owned_tables l 512 ?m c) < 2 ^ 32"
          using nk by (simp add: Kc_def)
        show "length xu + length (owned_leaves l 512 ?m c) < 2 ^ 32"
          using nu by (simp add: Uc_def)
      qed
      then obtain s1 where s1: "destroy_walk l 512 s c = Ok s1"
        "heap_ok s1 (rev Kc @ xk) (rev Uc @ xu)" "same_bounds s s1"
        "\<And>f. f mod PGSIZE = 0 \<Longrightarrow> f \<notin> set (c # Kc @ Uc) \<Longrightarrow> frame_eq ?m (sc_mem s1) f"
        unfolding Kc_def Uc_def by blast
      have "\<exists>s2. sc_pmem_free s1 c True = Ok s2 \<and> heap_ok s2 (c # rev Kc @ xk) (rev Uc @ xu)
              \<and> same_bounds s1 s2
              \<and> (\<forall>f. f mod PGSIZE = 0 \<longrightarrow> f \<noteq> c \<longrightarrow> frame_eq (sc_mem s1) (sc_mem s2) f)"
      proof (rule free_kernel_frame [OF s1(2) _ c])
        show "c \<notin> set ((rev Kc @ xk) @ rev Uc @ xu)" using d by auto
        show "in_region (kern_region s1) c" using cr by (simp add: in_region_bounds [OF s1(3)])
        show "Suc (length (rev Kc @ xk)) < 2 ^ 32" using nk by simp
      qed
      then obtain s2 where s2: "sc_pmem_free s1 c True = Ok s2"
        "heap_ok s2 (c # rev Kc @ xk) (rev Uc @ xu)" "same_bounds s1 s2"
        "\<And>f. f mod PGSIZE = 0 \<Longrightarrow> f \<noteq> c \<Longrightarrow> frame_eq (sc_mem s1) (sc_mem s2) f"
        by blast
      have b2: "same_bounds s s2" using s1(3) s2(3) by (rule same_bounds_trans)
      have fe2: "frame_eq ?m (sc_mem s2) f" if "f mod PGSIZE = 0" "f \<notin> set (c # Kc @ Uc)" for f
        using s1(4) [OF that] s2(4) [of f] that by (auto intro: frame_eq_trans)
      have own2: "owned_tables (Suc l) k (sc_mem s2) t = owned_tables (Suc l) k ?m t
                \<and> owned_leaves (Suc l) k (sc_mem s2) t = owned_leaves (Suc l) k ?m t"
      proof (rule owned_cong)
        have "frame_eq ?m (sc_mem s2) t" using pre(2) d by (intro fe2) auto
        then show "read64 (sc_mem s2) (pte_ptr t (of_nat (511 - j)))
                     = read64 ?m (pte_ptr t (of_nat (511 - j)))" for j
          by (rule read64_entry_cong) (simp add: idx_le)
        show "frame_eq ?m (sc_mem s2) f" if "f \<in> set (owned_tables (Suc l) k ?m t)" for f
        proof (rule fe2)
          show "f mod PGSIZE = 0" using that by (rule owned_tables_aligned)
          show "f \<notin> set (c # Kc @ Uc)" using that d by (auto simp: Kr_def)
        qed
      qed
      then have K2: "owned_tables (Suc l) k (sc_mem s2) t = Kr"
        and U2: "owned_leaves (Suc l) k (sc_mem s2) t = Ur"
        by (simp_all add: Kr_def Ur_def)
      have "\<exists>s3. destroy_walk (Suc l) k s2 t = Ok s3
              \<and> heap_ok s3 (rev (owned_tables (Suc l) k (sc_mem s2) t) @ c # rev Kc @ xk)
                   (rev (owned_leaves (Suc l) k (sc_mem s2) t) @ rev Uc @ xu)
              \<and> same_bounds s2 s3
              \<and> (\<forall>f. f mod PGSIZE = 0
                    \<longrightarrow> f \<notin> set (t # owned_tables (Suc l) k (sc_mem s2) t
                                   @ owned_leaves (Suc l) k (sc_mem s2) t)
                    \<longrightarrow> frame_eq (sc_mem s2) (sc_mem s3) f)"
      proof (rule inner [OF s2(2) pre(2) k])
        show "distinct (t # owned_tables (Suc l) k (sc_mem s2) t
                @ owned_leaves (Suc l) k (sc_mem s2) t @ (c # rev Kc @ xk) @ rev Uc @ xu)"
          unfolding K2 U2 using d by auto
        show "list_all (in_region (kern_region s2)) (owned_tables (Suc l) k (sc_mem s2) t)"
          unfolding K2 using rk by (simp add: in_region_bounds [OF b2])
        show "list_all (in_region (user_region s2)) (owned_leaves (Suc l) k (sc_mem s2) t)"
          unfolding U2 using ru by (simp add: in_region_bounds [OF b2])
        show "length (c # rev Kc @ xk) + length (owned_tables (Suc l) k (sc_mem s2) t) < 2 ^ 32"
          unfolding K2 using nk by simp
        show "length (rev Uc @ xu) + length (owned_leaves (Suc l) k (sc_mem s2) t) < 2 ^ 32"
          unfolding U2 using nu by simp
      qed
      then obtain s3 where s3: "destroy_walk (Suc l) k s2 t = Ok s3"
        "heap_ok s3 (rev Kr @ c # rev Kc @ xk) (rev Ur @ rev Uc @ xu)" "same_bounds s2 s3"
        "\<And>f. f mod PGSIZE = 0 \<Longrightarrow> f \<notin> set (t # Kr @ Ur) \<Longrightarrow> frame_eq (sc_mem s2) (sc_mem s3) f"
        unfolding K2 U2 by blast
      have "destroy_walk (Suc l) (Suc k) s t = Ok s3"
        using table c0 s1(1) s2(1) s3(1)
        by (simp add: Let_def e_def [symmetric] i_def [symmetric] c_def [symmetric])
      moreover have "heap_ok s3 (rev ((Kc @ [c]) @ Kr) @ xk) (rev (Uc @ Ur) @ xu)"
        using s3(2) by simp
      moreover have "same_bounds s s3" using b2 s3(3) by (rule same_bounds_trans)
      moreover have "frame_eq ?m (sc_mem s3) f"
        if "f mod PGSIZE = 0" "f \<notin> set (t # ((Kc @ [c]) @ Kr) @ Uc @ Ur)" for f
      proof (rule frame_eq_trans)
        show "frame_eq ?m (sc_mem s2) f" using that by (intro fe2) auto
        show "frame_eq (sc_mem s2) (sc_mem s3) f" using that by (intro s3(4)) auto
      qed
      ultimately show ?thesis unfolding K U by blast
    next
      case leaf
      define p where "p = PTE_TO_PA e"
      define P where "P = (if e AND PTE_U \<noteq> 0 then [p] else [])"
      have K: "owned_tables (Suc l) (Suc k) ?m t = Kr"
        and U: "owned_leaves (Suc l) (Suc k) ?m t = P @ Ur"
        using leaf by (simp_all add: Let_def e_def i_def Kr_def Ur_def p_def P_def)
      note d = pre(4) [unfolded K U]
      note rk = pre(5) [unfolded K]
      note ru = pre(6) [unfolded U]
      note nk = pre(7) [unfolded K]
      note nu = pre(8) [unfolded U]
      have pa: "p mod PGSIZE = 0" by (simp add: p_def PTE_TO_PA_aligned)
      have "\<exists>s1. (if e AND PTE_U \<noteq> 0 then sc_pmem_free s p False else Ok s) = Ok s1
              \<and> heap_ok s1 xk (P @ xu) \<and> same_bounds s s1
              \<and> (\<forall>f. f mod PGSIZE = 0 \<longrightarrow> f \<notin> set P \<longrightarrow> frame_eq ?m (sc_mem s1) f)"
      proof (cases "e AND PTE_U \<noteq> 0")
        case True
        then have P: "P = [p]" by (simp add: P_def)
        have "\<exists>s1. sc_pmem_free s p False = Ok s1 \<and> heap_ok s1 xk (p # xu) \<and> same_bounds s s1
                \<and> (\<forall>f. f mod PGSIZE = 0 \<longrightarrow> f \<noteq> p \<longrightarrow> frame_eq ?m (sc_mem s1) f)"
        proof (rule free_user_frame [OF pre(1) _ pa])
          show "p \<notin> set (xk @ xu)" using d by (auto simp: P)
          show "in_region (user_region s) p" using ru by (simp add: P)
          show "Suc (length xu) < 2 ^ 32" using nu by (simp add: P)
        qed
        then show ?thesis using True by (simp add: P)
      next
        case False
        then show ?thesis using pre(1) by (simp add: P_def)
      qed
      then obtain s1 where s1:
        "(if e AND PTE_U \<noteq> 0 then sc_pmem_free s p False else Ok s) = Ok s1"
        "heap_ok s1 xk (P @ xu)" "same_bounds s s1"
        "\<And>f. f mod PGSIZE = 0 \<Longrightarrow> f \<notin> set P \<Longrightarrow> frame_eq ?m (sc_mem s1) f"
        by blast
      define s1' where
        "s1' = s1\<lparr>sc_mem := write64 (sc_mem s1) (pte_ptr t i) (read64 (sc_mem s1) (pte_ptr t i) AND NOT PTE_V)\<rparr>"
      have w: "frame_eq (sc_mem s1) (sc_mem s1') f" if "f mod PGSIZE = 0" "f \<noteq> t" for f
        using that pre(2) i by (simp add: s1'_def frame_eq_write64_pte)
      have h1: "heap_ok s1' xk (P @ xu)"
      proof (rule heap_ok_frame_eq [OF s1(2)])
        show "kern_region s1' = kern_region s1" "user_region s1' = user_region s1"
          by (simp_all add: s1'_def)
        show "frame_eq (sc_mem s1) (sc_mem s1') x" if "x \<in> set (xk @ P @ xu)" for x
        proof (rule w)
          show "x mod PGSIZE = 0" using s1(2) that by (rule heap_ok_aligned)
          show "x \<noteq> t" using that d by auto
        qed
      qed
      have b1: "same_bounds s s1'" using s1(3) by (simp add: s1'_def)
      have fe1: "frame_eq ?m (sc_mem s1') f" if "f mod PGSIZE = 0" "f \<notin> set (t # P)" for f
        using s1(4) [of f] w [of f] that by (auto intro: frame_eq_trans)
      have own1: "owned_tables (Suc l) k (sc_mem s1') t = owned_tables (Suc l) k ?m t
                \<and> owned_leaves (Suc l) k (sc_mem s1') t = owned_leaves (Suc l) k ?m t"
      proof (rule owned_cong)
        have t1: "frame_eq ?m (sc_mem s1) t" using pre(2) d by (intro s1(4)) auto
        show "read64 (sc_mem s1') (pte_ptr t (of_nat (511 - j)))
                = read64 ?m (pte_ptr t (of_nat (511 - j)))" if "j < k" for j
        proof -
          have "read64 (sc_mem s1') (pte_ptr t (of_nat (511 - j)))
                  = read64 (sc_mem s1) (pte_ptr t (of_nat (511 - j)))"
            using i other [OF that] by (simp add: s1'_def write64_entry_other idx_le)
          also have "\<dots> = read64 ?m (pte_ptr t (of_nat (511 - j)))"
            using t1 by (rule read64_entry_cong) (simp add: idx_le)
          finally show ?thesis .
        qed
        show "frame_eq ?m (sc_mem s1') f" if "f \<in> set (owned_tables (Suc l) k ?m t)" for f
        proof (rule fe1)
          show "f mod PGSIZE = 0" using that by (rule owned_tables_aligned)
          show "f \<notin> set (t # P)" using that d by (auto simp: Kr_def)
        qed
      qed
      then have K1: "owned_tables (Suc l) k (sc_mem s1') t = Kr"
        and U1: "owned_leaves (Suc l) k (sc_mem s1') t = Ur"
        by (simp_all add: Kr_def Ur_def)
      have "\<exists>s3. destroy_walk (Suc l) k s1' t = Ok s3
              \<and> heap_ok s3 (rev (owned_tables (Suc l) k (sc_mem s1') t) @ xk)
                   (rev (owned_leaves (Suc l) k (sc_mem s1') t) @ P @ xu)
              \<and> same_bounds s1' s3
              \<and> (\<forall>f. f mod PGSIZE = 0
                    \<longrightarrow> f \<notin> set (t # owned_tables (Suc l) k (sc_mem s1') t
                                   @ owned_leaves (Suc l) k (sc_mem s1') t)
                    \<longrightarrow> frame_eq (sc_mem s1') (sc_mem s3) f)"
      proof (rule inner [OF h1 pre(2) k])
        show "distinct (t # owned_tables (Suc l) k (sc_mem s1') t
                @ owned_leaves (Suc l) k (sc_mem s1') t @ xk @ P @ xu)"
          unfolding K1 U1 using d by auto
        show "list_all (in_region (kern_region s1')) (owned_tables (Suc l) k (sc_mem s1') t)"
          unfolding K1 using rk by (simp add: in_region_bounds [OF b1])
        show "list_all (in_region (user_region s1')) (owned_leaves (Suc l) k (sc_mem s1') t)"
          unfolding U1 using ru by (simp add: in_region_bounds [OF b1])
        show "length xk + length (owned_tables (Suc l) k (sc_mem s1') t) < 2 ^ 32"
          unfolding K1 using nk by simp
        show "length (P @ xu) + length (owned_leaves (Suc l) k (sc_mem s1') t) < 2 ^ 32"
          unfolding U1 using nu by simp
      qed
      then obtain s3 where s3: "destroy_walk (Suc l) k s1' t = Ok s3"
        "heap_ok s3 (rev Kr @ xk) (rev Ur @ P @ xu)" "same_bounds s1' s3"
        "\<And>f. f mod PGSIZE = 0 \<Longrightarrow> f \<notin> set (t # Kr @ Ur) \<Longrightarrow> frame_eq (sc_mem s1') (sc_mem s3) f"
        unfolding K1 U1 by blast
      have "destroy_walk (Suc l) (Suc k) s t = Ok s3"
      proof (cases "e AND PTE_U \<noteq> 0")
        case True
        with s1(1) have "sc_pmem_free s p False = Ok s1" by simp
        then show ?thesis
          using leaf True s3(1)
          by (simp add: Let_def e_def [symmetric] i_def [symmetric] p_def [symmetric]
              s1'_def [symmetric])
      next
        case False
        with s1(1) have "s1 = s" by simp
        then have "s1' = s\<lparr>sc_mem := write64 (sc_mem s) (pte_ptr t i) (e AND NOT PTE_V)\<rparr>"
          by (simp add: s1'_def e_def)
        then show ?thesis
          using leaf False s3(1)
          by (simp add: Let_def e_def [symmetric] i_def [symmetric])
      qed
      moreover have "heap_ok s3 (rev Kr @ xk) (rev (P @ Ur) @ xu)"
        using s3(2) by (cases "e AND PTE_U \<noteq> 0") (simp_all add: P_def)
      moreover have "same_bounds s s3" using b1 s3(3) by (rule same_bounds_trans)
      moreover have "frame_eq ?m (sc_mem s3) f"
        if "f mod PGSIZE = 0" "f \<notin> set (t # Kr @ P @ Ur)" for f
      proof (rule frame_eq_trans)
        show "frame_eq ?m (sc_mem s1') f" using that by (intro fe1) auto
        show "frame_eq (sc_mem s1') (sc_mem s3) f" using that by (intro s3(4)) auto
      qed
      ultimately show ?thesis unfolding K U by blast
    qed
  qed
qed

text \<open>The whole of \<open>uvm_destroy_pgtbl\<close>: the walk from the root, then the root itself,
  cleared and given to the user region.\<close>

lemma uvm_destroy_frees:
  assumes ok: "heap_ok s xk xu"
    and r: "pgtbl mod PGSIZE = 0" "in_region (user_region s) pgtbl"
    and d: "distinct (pgtbl # owned_tables 3 512 (sc_mem s) pgtbl
              @ owned_leaves 3 512 (sc_mem s) pgtbl @ xk @ xu)"
    and rk: "list_all (in_region (kern_region s)) (owned_tables 3 512 (sc_mem s) pgtbl)"
    and ru: "list_all (in_region (user_region s)) (owned_leaves 3 512 (sc_mem s) pgtbl)"
    and nk: "length xk + length (owned_tables 3 512 (sc_mem s) pgtbl) < 2 ^ 32"
    and nu: "Suc (length xu + length (owned_leaves 3 512 (sc_mem s) pgtbl)) < 2 ^ 32"
  shows "\<exists>s'. uvm_destroy_pgtbl s pgtbl = Ok s'
           \<and> heap_ok s' (rev (owned_tables 3 512 (sc_mem s) pgtbl) @ xk)
                (pgtbl # rev (owned_leaves 3 512 (sc_mem s) pgtbl) @ xu)
           \<and> same_bounds s s'"
proof -
  let ?K = "owned_tables 3 512 (sc_mem s) pgtbl"
  let ?U = "owned_leaves 3 512 (sc_mem s) pgtbl"
  have nz: "pgtbl \<noteq> 0"
    using ok r(2) by (auto simp: heap_ok_def region_ok_def in_region_def)
  have "\<exists>s1. destroy_walk 3 512 s pgtbl = Ok s1 \<and> heap_ok s1 (rev ?K @ xk) (rev ?U @ xu)
          \<and> same_bounds s s1
          \<and> (\<forall>f. f mod PGSIZE = 0 \<longrightarrow> f \<notin> set (pgtbl # ?K @ ?U)
                \<longrightarrow> frame_eq (sc_mem s) (sc_mem s1) f)"
    using ok r(1) _ d rk ru nk by (rule destroy_walk_frees) (use nu in simp_all)
  then obtain s1 where s1: "destroy_walk 3 512 s pgtbl = Ok s1"
    "heap_ok s1 (rev ?K @ xk) (rev ?U @ xu)" "same_bounds s s1"
    by blast
  define s2 where "s2 = s1\<lparr>sc_mem := memset (sc_mem s1) pgtbl 0 PGSIZE\<rparr>"
  have h2: "heap_ok s2 (rev ?K @ xk) (rev ?U @ xu)"
  proof (rule heap_ok_frame_eq [OF s1(2)])
    show "kern_region s2 = kern_region s1" "user_region s2 = user_region s1"
      by (simp_all add: s2_def)
    show "frame_eq (sc_mem s1) (sc_mem s2) x" if "x \<in> set ((rev ?K @ xk) @ rev ?U @ xu)" for x
    proof -
      have "x mod PGSIZE = 0" using s1(2) that by (rule heap_ok_aligned)
      moreover have "x \<noteq> pgtbl" using that d by auto
      ultimately show ?thesis using r(1) by (simp add: s2_def frame_eq_memset)
    qed
  qed
  have b2: "same_bounds s s2" using s1(3) by (simp add: s2_def)
  have "\<exists>s'. sc_pmem_free s2 pgtbl False = Ok s'
          \<and> heap_ok s' (rev ?K @ xk) (pgtbl # rev ?U @ xu) \<and> same_bounds s2 s'
          \<and> (\<forall>f. f mod PGSIZE = 0 \<longrightarrow> f \<noteq> pgtbl \<longrightarrow> frame_eq (sc_mem s2) (sc_mem s') f)"
  proof (rule free_user_frame [OF h2 _ r(1)])
    show "pgtbl \<notin> set ((rev ?K @ xk) @ rev ?U @ xu)" using d by auto
    show "in_region (user_region s2) pgtbl" using r(2) by (simp add: in_region_bounds [OF b2])
    show "Suc (length (rev ?U @ xu)) < 2 ^ 32" using nu by simp
  qed
  then obtain s' where s': "sc_pmem_free s2 pgtbl False = Ok s'"
    "heap_ok s' (rev ?K @ xk) (pgtbl # rev ?U @ xu)" "same_bounds s2 s'"
    by blast
  have "uvm_destroy_pgtbl s pgtbl = Ok s'"
    using nz s1(1) s'(1) by (simp add: uvm_destroy_pgtbl_def destroy_pgtbl_def s2_def)
  moreover have "same_bounds s s'" using b2 s'(3) by (rule same_bounds_trans)
  ultimately show ?thesis using s'(2) by blast
qed

text \<open>Tables with few valid entries: the entries that are not valid own nothing.\<close>

lemma owned_level_0: "owned_tables 0 k m t = []" "owned_leaves 0 k m t = []"
  by (cases k; simp)+

lemma owned_none:
  assumes "\<And>j. j < k \<Longrightarrow> read64 m (pte_ptr t (of_nat (511 - j))) AND PTE_V = 0"
  shows "owned_tables l k m t = [] \<and> owned_leaves l k m t = []"
  using assms
proof (induction k)
  case 0
  show ?case by simp
next
  case (Suc k)
  then show ?case by (cases l) (simp_all add: owned_level_0 Let_def)
qed

lemma owned_skip:
  assumes "k' \<le> k"
    and "\<And>j. k' \<le> j \<Longrightarrow> j < k \<Longrightarrow> read64 m (pte_ptr t (of_nat (511 - j))) AND PTE_V = 0"
  shows "owned_tables l k m t = owned_tables l k' m t
       \<and> owned_leaves l k m t = owned_leaves l k' m t"
  using assms
proof (induction k)
  case 0
  then show ?case by simp
next
  case (Suc k)
  show ?case
  proof (cases "k' = Suc k")
    case True
    then show ?thesis by simp
  next
    case False
    with Suc.prems(1) have le: "k' \<le> k" by simp
    have "read64 m (pte_ptr t (of_nat (511 - k))) AND PTE_V = 0"
      using Suc.prems(2) [of k] le by simp
    moreover have "owned_tables l k m t = owned_tables l k' m t
         \<and> owned_leaves l k m t = owned_leaves l k' m t"
      using le Suc.prems(2) by (intro Suc.IH) simp_all
    ultimately show ?thesis by (cases l) (simp_all add: owned_level_0 Let_def)
  qed
qed

text \<open>A table whose only entry that may be valid is the entry \<open>i0\<close>.\<close>

lemma owned_single:
  assumes i0: "i0 \<le> 511"
    and e0: "read64 m (pte_ptr t (of_nat i0)) = e0"
    and z: "\<And>i. i \<le> 511 \<Longrightarrow> i \<noteq> i0 \<Longrightarrow> read64 m (pte_ptr t (of_nat i)) AND PTE_V = 0"
  shows "owned_tables (Suc l) 512 m t =
           (if e0 AND PTE_V = 0 then []
            else if e0 AND (PTE_R OR PTE_W OR PTE_X) = 0
            then owned_tables l 512 m (PTE_TO_PA e0) @ [PTE_TO_PA e0] else [])"
    and "owned_leaves (Suc l) 512 m t =
           (if e0 AND PTE_V = 0 then []
            else if e0 AND (PTE_R OR PTE_W OR PTE_X) = 0
            then owned_leaves l 512 m (PTE_TO_PA e0)
            else if e0 AND PTE_U \<noteq> 0 then [PTE_TO_PA e0] else [])"
proof -
  have a: "owned_tables (Suc l) 512 m t = owned_tables (Suc l) (Suc (511 - i0)) m t
         \<and> owned_leaves (Suc l) 512 m t = owned_leaves (Suc l) (Suc (511 - i0)) m t"
  proof (rule owned_skip)
    show "Suc (511 - i0) \<le> 512" by simp
    show "read64 m (pte_ptr t (of_nat (511 - j))) AND PTE_V = 0"
      if "Suc (511 - i0) \<le> j" "j < 512" for j
      using that i0 by (intro z) simp_all
  qed
  have b: "owned_tables (Suc l) (511 - i0) m t = [] \<and> owned_leaves (Suc l) (511 - i0) m t = []"
  proof (rule owned_none)
    show "read64 m (pte_ptr t (of_nat (511 - j))) AND PTE_V = 0" if "j < 511 - i0" for j
      using that i0 by (intro z) simp_all
  qed
  have c: "511 - (511 - i0) = i0" using i0 by simp
  show "owned_tables (Suc l) 512 m t =
           (if e0 AND PTE_V = 0 then []
            else if e0 AND (PTE_R OR PTE_W OR PTE_X) = 0
            then owned_tables l 512 m (PTE_TO_PA e0) @ [PTE_TO_PA e0] else [])"
    using a b by (simp add: c e0 Let_def)
  show "owned_leaves (Suc l) 512 m t =
           (if e0 AND PTE_V = 0 then []
            else if e0 AND (PTE_R OR PTE_W OR PTE_X) = 0
            then owned_leaves l 512 m (PTE_TO_PA e0)
            else if e0 AND PTE_U \<noteq> 0 then [PTE_TO_PA e0] else [])"
    using a b by (simp add: c e0 Let_def)
qed


text \<open>The address space of \<open>sc_mapped\<close>: the root \<open>0x80404000\<close> (a user frame), the
  tables \<open>0x80400000\<close> and \<open>0x80401000\<close> (kernel frames) and the page \<open>0x80405000\<close>
  mapped at \<open>0x1000\<close> with R, W and U.\<close>

lemma sc_mapped_mem:
  "sc_mem sc_mapped =
     write64 (write64
       (memset (memset
         (write64
           (memset (memset
             (memset
               (memset (memset (sc_mem sc_demo) 0x80404000 0 PGSIZE) 0x80404000 0 PGSIZE)
               0x80405000 0 PGSIZE)
             0x80400000 0 PGSIZE) 0x80400000 0 PGSIZE)
           (pte_ptr 0x80404000 0) 0x20100001)
         0x80401000 0 PGSIZE) 0x80401000 0 PGSIZE)
       (pte_ptr 0x80400000 0) 0x20100401) (pte_ptr 0x80401000 1) 0x20101417"
  by (simp add: sc_mapped_eq sc_proc_eq pte_ptr_def PGSIZE_def)

lemma sc_frames_aligned:
  "(0x80400000::u64) mod PGSIZE = 0" "(0x80401000::u64) mod PGSIZE = 0"
  "(0x80402000::u64) mod PGSIZE = 0" "(0x80403000::u64) mod PGSIZE = 0"
  "(0x80404000::u64) mod PGSIZE = 0" "(0x80405000::u64) mod PGSIZE = 0"
  "(0x80406000::u64) mod PGSIZE = 0" "(0x80407000::u64) mod PGSIZE = 0"
  by (simp_all add: PGSIZE_def)

lemma idx_neq:
  "i \<le> 511 \<Longrightarrow> i \<noteq> 0 \<Longrightarrow> (of_nat i :: u64) \<noteq> 0"
  "i \<le> 511 \<Longrightarrow> i \<noteq> 1 \<Longrightarrow> (of_nat i :: u64) \<noteq> 1"
  using idx_inj [of i 0] idx_inj [of i 1] by auto

lemmas table_eval = read64_write64_other_frame read64_memset_other_frame read64_memset_zero
  write64_entry_other read64_pte_same sc_frames_aligned idx_le idx_neq

lemma sc_mapped_root:
  "read64 (sc_mem sc_mapped) (pte_ptr 0x80404000 0) = 0x20100001"
  "i \<le> 511 \<Longrightarrow> i \<noteq> 0 \<Longrightarrow> read64 (sc_mem sc_mapped) (pte_ptr 0x80404000 (of_nat i)) = 0"
  by (simp_all add: sc_mapped_mem table_eval)

lemma sc_mapped_level1:
  "read64 (sc_mem sc_mapped) (pte_ptr 0x80400000 0) = 0x20100401"
  "i \<le> 511 \<Longrightarrow> i \<noteq> 0 \<Longrightarrow> read64 (sc_mem sc_mapped) (pte_ptr 0x80400000 (of_nat i)) = 0"
  by (simp_all add: sc_mapped_mem table_eval)

lemma sc_mapped_level0:
  "read64 (sc_mem sc_mapped) (pte_ptr 0x80401000 1) = 0x20101417"
  "i \<le> 511 \<Longrightarrow> i \<noteq> 1 \<Longrightarrow> read64 (sc_mem sc_mapped) (pte_ptr 0x80401000 (of_nat i)) = 0"
  by (simp_all add: sc_mapped_mem table_eval)

lemma sc_mapped_owned:
  "owned_tables 3 512 (sc_mem sc_mapped) 0x80404000 = [0x80401000, 0x80400000]"
  "owned_leaves 3 512 (sc_mem sc_mapped) 0x80404000 = [0x80405000]"
proof -
  note ev = PTE_TO_PA_def PTE_V_def PTE_R_def PTE_W_def PTE_X_def PTE_U_def
  have l0: "owned_tables (Suc 0) 512 (sc_mem sc_mapped) 0x80401000 = []"
    "owned_leaves (Suc 0) 512 (sc_mem sc_mapped) 0x80401000 = [0x80405000]"
    using owned_single [of 1 "sc_mem sc_mapped" "0x80401000" "0x20101417" 0]
    by (simp_all add: sc_mapped_level0 ev)
  have l1: "owned_tables (Suc (Suc 0)) 512 (sc_mem sc_mapped) 0x80400000 = [0x80401000]"
    "owned_leaves (Suc (Suc 0)) 512 (sc_mem sc_mapped) 0x80400000 = [0x80405000]"
    using owned_single [of 0 "sc_mem sc_mapped" "0x80400000" "0x20100401" "Suc 0"]
    by (simp_all add: sc_mapped_level1 l0 ev)
  show "owned_tables 3 512 (sc_mem sc_mapped) 0x80404000 = [0x80401000, 0x80400000]"
    "owned_leaves 3 512 (sc_mem sc_mapped) 0x80404000 = [0x80405000]"
    using owned_single [of 0 "sc_mem sc_mapped" "0x80404000" "0x20100001" "Suc (Suc 0)"]
    by (simp_all add: sc_mapped_root l1 ev numeral_3_eq_3)
qed

lemma sc_mapped_regions:
  "kern_region sc_mapped = \<lparr>rg_begin = 0x80400000, rg_end = 0x80404000, allocable = 2,
                             list_head_next = 0x80402000\<rparr>"
  "user_region sc_mapped = \<lparr>rg_begin = 0x80404000, rg_end = 0x80408000, allocable = 2,
                             list_head_next = 0x80406000\<rparr>"
  by (simp_all add: sc_mapped_eq)

lemma sc_mapped_free_lists:
  "read64 (sc_mem sc_mapped) 0x80402000 = 0x80403000"
  "read64 (sc_mem sc_mapped) 0x80403000 = 0"
  "read64 (sc_mem sc_mapped) 0x80406000 = 0x80407000"
  "read64 (sc_mem sc_mapped) 0x80407000 = 0"
proof -
  have "read64 (sc_mem sc_mapped) (pte_ptr f 0) = read64 (sc_mem sc_demo) (pte_ptr f 0)"
    if "f mod PGSIZE = 0" "f \<notin> {0x80400000, 0x80401000, 0x80404000, 0x80405000}" for f
    using that by (simp add: sc_mapped_mem table_eval)
  then have g: "read64 (sc_mem sc_mapped) f = read64 (sc_mem sc_demo) f"
    if "f mod PGSIZE = 0" "f \<notin> {0x80400000, 0x80401000, 0x80404000, 0x80405000}" for f
    using that by (simp add: pte_ptr_0)
  have d: "read64 (sc_mem sc_demo) 0x80402000 = 0x80403000"
    "read64 (sc_mem sc_demo) 0x80403000 = 0"
    "read64 (sc_mem sc_demo) 0x80406000 = 0x80407000"
    "read64 (sc_mem sc_demo) 0x80407000 = 0"
    by (simp_all add: sc_demo_def store_eval)
  show "read64 (sc_mem sc_mapped) 0x80402000 = 0x80403000"
    "read64 (sc_mem sc_mapped) 0x80403000 = 0"
    "read64 (sc_mem sc_mapped) 0x80406000 = 0x80407000"
    "read64 (sc_mem sc_mapped) 0x80407000 = 0"
    by (simp_all add: g sc_frames_aligned d)
qed

lemma sc_mapped_heap_ok: "heap_ok sc_mapped [0x80402000, 0x80403000] [0x80406000, 0x80407000]"
  by (simp add: heap_ok_def region_ok_def sc_mapped_regions sc_mapped_free_lists
      sc_frames_aligned)


text \<open>Claim C3, as amended.  Take an address space whose root is a page-aligned frame of
  the user region (\<open>proc_pgtbl_init\<close> takes it with \<open>pmem_alloc(false)\<close>), both regions in
  good order with free lists \<open>xk\<close> and \<open>xu\<close>.  If the root, the tables below it, the
  frames of its leaves with \<open>PTE_U\<close> and the free frames are pairwise distinct, the
  tables lie in the kernel region and the leaf frames in the user region, then
  \<open>uvm_destroy_pgtbl\<close> returns; the kernel free list is then the tables, each once,
  before the old list; and the user free list is the root, then the frames of the
  leaves with \<open>PTE_U\<close>, each once, then the old list.  The root goes to the user region,
  and the frame of a leaf without \<open>PTE_U\<close> is not freed.\<close>

theorem uvm_destroy_pgtbl_frees_tree:
  assumes "region_ok (sc_mem s) (kern_region s) xk"
    and "region_ok (sc_mem s) (user_region s) xu"
    and "pgtbl mod PGSIZE = 0" "in_region (user_region s) pgtbl"
    and "distinct (pgtbl # owned_tables 3 512 (sc_mem s) pgtbl
           @ owned_leaves 3 512 (sc_mem s) pgtbl @ xk @ xu)"
    and "list_all (in_region (kern_region s)) (owned_tables 3 512 (sc_mem s) pgtbl)"
    and "list_all (in_region (user_region s)) (owned_leaves 3 512 (sc_mem s) pgtbl)"
    and "length xk + length (owned_tables 3 512 (sc_mem s) pgtbl) < 2 ^ 32"
    and "Suc (length xu + length (owned_leaves 3 512 (sc_mem s) pgtbl)) < 2 ^ 32"
  shows "\<exists>s'. uvm_destroy_pgtbl s pgtbl = Ok s'
           \<and> region_ok (sc_mem s') (kern_region s')
                (rev (owned_tables 3 512 (sc_mem s) pgtbl) @ xk)
           \<and> region_ok (sc_mem s') (user_region s')
                (pgtbl # rev (owned_leaves 3 512 (sc_mem s) pgtbl) @ xu)"
proof -
  have "heap_ok s xk xu" using assms(1,2) by (simp add: heap_ok_def)
  from uvm_destroy_frees [OF this assms(3-9)] show ?thesis
    by (auto simp: heap_ok_def)
qed

theorem uvm_destroy_pgtbl_frees_tree_witness:
  "region_ok (sc_mem sc_mapped) (kern_region sc_mapped) [0x80402000, 0x80403000]
   \<and> region_ok (sc_mem sc_mapped) (user_region sc_mapped) [0x80406000, 0x80407000]
   \<and> owned_tables 3 512 (sc_mem sc_mapped) 0x80404000 = [0x80401000, 0x80400000]
   \<and> owned_leaves 3 512 (sc_mem sc_mapped) 0x80404000 = [0x80405000]
   \<and> (\<exists>s'. uvm_destroy_pgtbl sc_mapped 0x80404000 = Ok s'
          \<and> region_ok (sc_mem s') (kern_region s')
               [0x80400000, 0x80401000, 0x80402000, 0x80403000]
          \<and> region_ok (sc_mem s') (user_region s')
               [0x80404000, 0x80405000, 0x80406000, 0x80407000])"
proof -
  have h: "region_ok (sc_mem sc_mapped) (kern_region sc_mapped) [0x80402000, 0x80403000]"
    "region_ok (sc_mem sc_mapped) (user_region sc_mapped) [0x80406000, 0x80407000]"
    using sc_mapped_heap_ok by (simp_all add: heap_ok_def)
  have "\<exists>s'. uvm_destroy_pgtbl sc_mapped 0x80404000 = Ok s'
          \<and> region_ok (sc_mem s') (kern_region s')
               (rev (owned_tables 3 512 (sc_mem sc_mapped) 0x80404000)
                  @ [0x80402000, 0x80403000])
          \<and> region_ok (sc_mem s') (user_region s')
               (0x80404000 # rev (owned_leaves 3 512 (sc_mem sc_mapped) 0x80404000)
                  @ [0x80406000, 0x80407000])"
    using h by (rule uvm_destroy_pgtbl_frees_tree)
      (simp_all add: sc_mapped_owned sc_mapped_regions in_region_def sc_frames_aligned)
  then show ?thesis using h by (simp add: sc_mapped_owned)
qed

text \<open>Claim C3 as stated sends the root to the kernel region.  On \<open>sc_mapped\<close>, whose root
  \<open>0x80404000\<close> came from the user region as \<open>proc_pgtbl_init\<close> takes it,
  \<open>uvm_destroy_pgtbl\<close> returns with the root at the head of the user free list; the
  kernel region, \<open>0x80400000\<close> to \<open>0x80404000\<close>, has its four frames back and the root
  is not one of them.\<close>

theorem uvm_destroy_root_counterexample:
  "\<exists>s'. uvm_destroy_pgtbl sc_mapped 0x80404000 = Ok s'
      \<and> list_head_next (user_region s') = 0x80404000
      \<and> rg_begin (kern_region s') = 0x80400000 \<and> rg_end (kern_region s') = 0x80404000
      \<and> region_ok (sc_mem s') (kern_region s')
           [0x80400000, 0x80401000, 0x80402000, 0x80403000]"
proof -
  have "\<exists>s'. uvm_destroy_pgtbl sc_mapped 0x80404000 = Ok s'
          \<and> heap_ok s'
               (rev (owned_tables 3 512 (sc_mem sc_mapped) 0x80404000)
                  @ [0x80402000, 0x80403000])
               (0x80404000 # rev (owned_leaves 3 512 (sc_mem sc_mapped) 0x80404000)
                  @ [0x80406000, 0x80407000])
          \<and> same_bounds sc_mapped s'"
    using sc_mapped_heap_ok by (rule uvm_destroy_frees)
      (simp_all add: sc_mapped_owned sc_mapped_regions in_region_def sc_frames_aligned)
  then obtain s' where s': "uvm_destroy_pgtbl sc_mapped 0x80404000 = Ok s'"
    "heap_ok s' [0x80400000, 0x80401000, 0x80402000, 0x80403000]
       [0x80404000, 0x80405000, 0x80406000, 0x80407000]"
    "same_bounds sc_mapped s'"
    unfolding sc_mapped_owned by auto
  have "list_head_next (user_region s') = 0x80404000"
    using s'(2) by (simp add: heap_ok_def region_ok_def)
  moreover have "rg_begin (kern_region s') = 0x80400000" "rg_end (kern_region s') = 0x80404000"
    using s'(3) by (simp_all add: same_bounds_def sc_mapped_regions)
  moreover have "region_ok (sc_mem s') (kern_region s')
      [0x80400000, 0x80401000, 0x80402000, 0x80403000]"
    using s'(2) by (simp add: heap_ok_def)
  ultimately show ?thesis using s'(1) by blast
qed

end
